theory Spec2Isabelle
  imports Main "HOL-Library.Word"
begin

section \<open>The object pool allocator (opalloc)\<close>

text \<open>
  A shallow embedding of the low-level interface of the pool allocator:
  \<open>op_ll_initialize_allocator\<close>, \<open>op_ll_allocate_object\<close>, \<open>op_ll_deallocate_object\<close>,
  \<open>op_ll_deinitialize_allocator\<close>, \<open>op_ll_get_allocator_stats\<close> and the static helpers
  \<open>fill_chunks\<close> and \<open>grow_pool\<close>.

  The C code works on the heap of the C library, so the model carries that heap as an
  explicit state, the \<open>world\<close>. Every function takes the world and returns the new one.
  A step that goes wrong in the built program (reading or writing through a null or
  dangling pointer, freeing a pointer that is not a live block) is the result \<open>Inl\<close> of a
  \<open>fault\<close>. Taking the address of a member, as in \<open>p->data\<close> for the array member \<open>data\<close>,
  reads nothing and is no fault.

  Values of type \<open>size_t\<close> are natural numbers. The model does not wrap them: it describes
  the runs in which no size computation exceeds \<open>SIZE_MAX\<close>.
\<close>

subsection \<open>Data\<close>

type_synonym addr = nat

abbreviation (input) NULL :: addr where
  "NULL \<equiv> 0"

datatype active = NOT_IN_USE | IN_USE

text \<open>\<open>struct _ab_t\<close>: the flag, then the payload bytes (a flexible array member).\<close>

record ab_t =
  in_use :: active
  data :: "8 word list"

text \<open>\<open>struct _op_allocator\<close>.\<close>

record op_allocator =
  object_size :: nat
  initial_count :: nat
  maximum_objects :: nat
  use_chunks :: bool
  use_linear :: bool
  initialized :: bool
  pool :: addr

datatype op_ll_allocator_mode =
  OP_DOUBLING_INDIVIDUAL | OP_DOUBLING_CHUNK | OP_LINEAR_INDIVIDUAL | OP_LINEAR_CHUNK

text \<open>\<open>struct op_allocator_stats\<close>; \<open>{ 0 }\<close> is \<open>no_stats\<close>.\<close>

record op_allocator_stats =
  stats_object_size :: nat
  stats_maximum_objects :: nat
  active_objects :: nat

definition no_stats :: op_allocator_stats where
  "no_stats = \<lparr>stats_object_size = 0, stats_maximum_objects = 0, active_objects = 0\<rparr>"

datatype fault =
  NullDeref  \<comment> \<open>an access through a null pointer\<close>
| BadAccess  \<comment> \<open>an access to storage that is not live, or outside of an array\<close>
| BadFree    \<comment> \<open>\<open>free\<close> or \<open>realloc\<close> of a pointer that is not a live block\<close>
| NoProgress \<comment> \<open>a loop whose index does not advance\<close>

text \<open>
  The heap, split by the type of the objects: the allocator structs, the slot directories
  (arrays of \<open>_ab_t *\<close>) and the slot entries, each keyed by its address. \<open>blocks\<close> maps the
  base address of every live block of the C library to the number of bytes requested for it.
  Fresh blocks are taken at \<open>brk\<close>, upwards, so no address is ever handed out twice.
  \<open>script\<close> lists the outcomes of the coming allocation requests (\<open>True\<close>: the request
  succeeds); when it is used up, requests fail. \<open>errlog\<close> lists the messages passed to
  \<open>op_error_handler\<close>, \<open>freed\<close> the pointers passed to \<open>free\<close>, both in call order.
  \<open>garbage\<close> is the value that storage holds before it is written for the first time.
\<close>

record world =
  handles :: "addr \<Rightarrow> op_allocator option"
  dirs :: "addr \<Rightarrow> addr list option"
  entries :: "addr \<Rightarrow> ab_t option"
  blocks :: "addr \<Rightarrow> nat option"
  brk :: addr
  script :: "bool list"
  errlog :: "string list"
  freed :: "addr list"
  garbage :: addr

text \<open>Sizes of the ABI (LP64): an \<open>enum\<close> has four bytes, a pointer eight.\<close>

definition sizeof_ab_t :: nat where
  "sizeof_ab_t = 4"

definition sizeof_ptr :: nat where
  "sizeof_ptr = 8"

definition sizeof_op_allocator :: nat where
  "sizeof_op_allocator = 40"

text \<open>\<open>p->data\<close>: the address of the payload of the entry at \<open>p\<close>.\<close>

definition data_addr :: "addr \<Rightarrow> addr" where
  "data_addr p = p + sizeof_ab_t"

subsection \<open>The C library\<close>

definition op_error_handler :: "string \<Rightarrow> world \<Rightarrow> world" where
  "op_error_handler msg w = w\<lparr>errlog := errlog w @ [msg]\<rparr>"

text \<open>A request for \<open>n\<close> bytes: the null pointer, or a fresh block.\<close>

definition heap_alloc :: "nat \<Rightarrow> world \<Rightarrow> addr \<times> world" where
  "heap_alloc n w =
     (case script w of
        [] \<Rightarrow> (NULL, w)
      | b # bs \<Rightarrow>
          if b then (brk w, w\<lparr>blocks := (blocks w)(brk w \<mapsto> n), brk := brk w + max n 1,
                                script := bs\<rparr>)
          else (NULL, w\<lparr>script := bs\<rparr>))"

text \<open>\<open>calloc(nmemb, size)\<close> asks for \<open>nmemb * size\<close> bytes.\<close>

definition calloc :: "nat \<Rightarrow> nat \<Rightarrow> world \<Rightarrow> addr \<times> world" where
  "calloc nmemb sz w = heap_alloc (nmemb * sz) w"

definition outside :: "addr \<Rightarrow> nat \<Rightarrow> (addr \<Rightarrow> 'a option) \<Rightarrow> addr \<Rightarrow> 'a option" where
  "outside p n m = (\<lambda>x. if p \<le> x \<and> x < p + max n 1 then None else m x)"

text \<open>\<open>free(p)\<close>: nothing for the null pointer; the objects inside the block die with it.\<close>

definition heap_free :: "addr \<Rightarrow> world \<Rightarrow> fault + world" where
  "heap_free p w =
     (if p = NULL then Inr (w\<lparr>freed := freed w @ [p]\<rparr>)
      else case blocks w p of
        None \<Rightarrow> Inl BadFree
      | Some n \<Rightarrow> Inr (w\<lparr>handles := outside p n (handles w), dirs := outside p n (dirs w),
                         entries := outside p n (entries w), blocks := (blocks w)(p := None),
                         freed := freed w @ [p]\<rparr>))"

text \<open>
  \<open>realloc(p, sizeof(_ab_t *) * n)\<close> of a directory: on failure the null pointer, and the
  old block stays as it is; on success a block that holds the old contents, cut or extended
  to \<open>n\<close> pointers, and the old block is released. \<open>realloc(NULL, _)\<close> is \<open>malloc\<close>.
\<close>

definition realloc_dir :: "addr \<Rightarrow> nat \<Rightarrow> world \<Rightarrow> fault + (addr \<times> world)" where
  "realloc_dir p n w =
     (if p \<noteq> NULL \<and> (dirs w p = None \<or> blocks w p = None) then Inl BadFree
      else case heap_alloc (sizeof_ptr * n) w of (q, w1) \<Rightarrow>
        if q = NULL then Inr (NULL, w1)
        else
          let old = (case dirs w p of None \<Rightarrow> [] | Some d \<Rightarrow> d);
              new = take n old @ replicate (n - length old) (garbage w)
          in case heap_free p w1 of
               Inl f \<Rightarrow> Inl f
             | Inr w2 \<Rightarrow> Inr (q, w2\<lparr>dirs := (dirs w2)(q \<mapsto> new), freed := freed w\<rparr>))"

subsection \<open>Access to the directory and to the entries\<close>

text \<open>\<open>allocator->pool[i]\<close>, read and written.\<close>

definition read_pool :: "op_allocator \<Rightarrow> nat \<Rightarrow> world \<Rightarrow> fault + addr" where
  "read_pool a i w =
     (if pool a = NULL then Inl NullDeref
      else case dirs w (pool a) of
        None \<Rightarrow> Inl BadAccess
      | Some d \<Rightarrow> if i < length d then Inr (d ! i) else Inl BadAccess)"

definition write_pool :: "op_allocator \<Rightarrow> nat \<Rightarrow> addr \<Rightarrow> world \<Rightarrow> fault + world" where
  "write_pool a i v w =
     (if pool a = NULL then Inl NullDeref
      else case dirs w (pool a) of
        None \<Rightarrow> Inl BadAccess
      | Some d \<Rightarrow>
          if i < length d then Inr (w\<lparr>dirs := (dirs w)(pool a \<mapsto> d[i := v])\<rparr>)
          else Inl BadAccess)"

text \<open>\<open>p->in_use\<close>, read and written.\<close>

definition read_in_use :: "addr \<Rightarrow> world \<Rightarrow> fault + active" where
  "read_in_use p w =
     (if p = NULL then Inl NullDeref
      else case entries w p of None \<Rightarrow> Inl BadAccess | Some e \<Rightarrow> Inr (in_use e))"

definition write_in_use :: "addr \<Rightarrow> active \<Rightarrow> world \<Rightarrow> fault + world" where
  "write_in_use p v w =
     (if p = NULL then Inl NullDeref
      else case entries w p of
        None \<Rightarrow> Inl BadAccess
      | Some e \<Rightarrow> Inr (w\<lparr>entries := (entries w)(p \<mapsto> e\<lparr>in_use := v\<rparr>)\<rparr>))"

text \<open>\<open>memset(p->data, 0, n)\<close>.\<close>

definition memset_data :: "addr \<Rightarrow> nat \<Rightarrow> world \<Rightarrow> fault + world" where
  "memset_data p n w =
     (if p = NULL then Inl NullDeref
      else case entries w p of
        None \<Rightarrow> Inl BadAccess
      | Some e \<Rightarrow> Inr (w\<lparr>entries := (entries w)(p \<mapsto> e\<lparr>data := replicate n 0\<rparr>)\<rparr>))"

text \<open>The steps \<open>rv = p->data; memset(rv, 0, object_size); p->in_use = IN_USE;\<close>.\<close>

definition take_entry :: "op_allocator \<Rightarrow> addr \<Rightarrow> world \<Rightarrow> fault + (addr \<times> world)" where
  "take_entry a p w =
     (case memset_data p (object_size a) w of
        Inl f \<Rightarrow> Inl f
      | Inr w1 \<Rightarrow>
          (case write_in_use p IN_USE w1 of
             Inl f \<Rightarrow> Inl f
           | Inr w2 \<Rightarrow> Inr (data_addr p, w2)))"

text \<open>A zeroed entry, as \<open>calloc\<close> leaves it: \<open>NOT_IN_USE\<close> is 0.\<close>

definition zero_ab :: "nat \<Rightarrow> ab_t" where
  "zero_ab n = \<lparr>in_use = NOT_IN_USE, data = replicate n 0\<rparr>"

text \<open>\<open>calloc(1, sizeof(_ab_t) + object_size)\<close>, for one entry.\<close>

definition calloc_ab :: "nat \<Rightarrow> world \<Rightarrow> addr \<times> world" where
  "calloc_ab osz w =
     (case calloc 1 (sizeof_ab_t + osz) w of (q, w1) \<Rightarrow>
        if q = NULL then (NULL, w1)
        else (q, w1\<lparr>entries := (entries w1)(q \<mapsto> zero_ab osz)\<rparr>))"

subsection \<open>Static helpers\<close>

text \<open>The loop of \<open>fill_chunks\<close>: \<open>pool[i + offset] = &chunk[i * entry_size]\<close>.\<close>

function fill_loop :: "op_allocator \<Rightarrow> nat \<Rightarrow> nat \<Rightarrow> addr \<Rightarrow> nat \<Rightarrow> nat \<Rightarrow> world
    \<Rightarrow> fault + world" where
  "fill_loop a offset object_count chunk entry_size i w =
     (if i < object_count then
        (case write_pool a (i + offset) (chunk + i * entry_size) w of
           Inl f \<Rightarrow> Inl f
         | Inr w1 \<Rightarrow> fill_loop a offset object_count chunk entry_size (i + 1) w1)
      else Inr w)"
  by pat_completeness auto
termination
  by (relation "measure (\<lambda>(a, offset, object_count, chunk, entry_size, i, w). object_count - i)")
    auto

text \<open>
  The zeroed block of \<open>fill_chunks\<close> holds an entry every \<open>entry_size\<close> bytes; the first
  \<open>object_count\<close> of them are the ones the directory will point to.
\<close>

definition chunk_entries :: "addr \<Rightarrow> nat \<Rightarrow> nat \<Rightarrow> nat \<Rightarrow> (addr \<Rightarrow> ab_t option)
    \<Rightarrow> addr \<Rightarrow> ab_t option" where
  "chunk_entries chunk object_count entry_size osz m =
     (\<lambda>x. if chunk \<le> x \<and> x < chunk + object_count * entry_size
              \<and> (x - chunk) mod entry_size = 0
           then Some (zero_ab osz) else m x)"

definition fill_chunks :: "addr \<Rightarrow> nat \<Rightarrow> nat \<Rightarrow> world \<Rightarrow> fault + (bool \<times> world)" where
  "fill_chunks h offset object_count w =
     (case handles w h of
        None \<Rightarrow> Inl BadAccess
      | Some a \<Rightarrow>
          let entry_size = sizeof_ab_t + object_size a;
              chunk_size = object_count * entry_size
          in case calloc object_count chunk_size w of (chunk, w1) \<Rightarrow>
            if chunk \<noteq> NULL then
              (case fill_loop a offset object_count chunk entry_size 0
                      (w1\<lparr>entries := chunk_entries chunk object_count entry_size
                                        (object_size a) (entries w1)\<rparr>) of
                 Inl f \<Rightarrow> Inl f
               | Inr w2 \<Rightarrow> Inr (True, w2))
            else
              Inr (False, op_error_handler
                     ''Could not fill chunks when initializing or expanding.'' w1))"

text \<open>The loop of \<open>grow_pool\<close>: \<open>pool[i] = NULL\<close> from \<open>old_size\<close> up to \<open>new_size\<close>.\<close>

function null_loop :: "op_allocator \<Rightarrow> nat \<Rightarrow> nat \<Rightarrow> world \<Rightarrow> fault + world" where
  "null_loop a new_size i w =
     (if i < new_size then
        (case write_pool a i NULL w of
           Inl f \<Rightarrow> Inl f
         | Inr w1 \<Rightarrow> null_loop a new_size (i + 1) w1)
      else Inr w)"
  by pat_completeness auto
termination
  by (relation "measure (\<lambda>(a, new_size, i, w). new_size - i)") auto

definition grow_pool :: "addr \<Rightarrow> world \<Rightarrow> fault + (bool \<times> world)" where
  "grow_pool h w =
     (case handles w h of
        None \<Rightarrow> Inl BadAccess
      | Some a \<Rightarrow>
          let old_size = maximum_objects a;
              grow_size = (if use_linear a then initial_count a else old_size);
              new_size = (if use_linear a then old_size + grow_size else old_size * 2)
          in case realloc_dir (pool a) new_size w of
               Inl f \<Rightarrow> Inl f
             | Inr (p, w1) \<Rightarrow>
                 let a1 = a\<lparr>pool := p\<rparr>;
                     w2 = w1\<lparr>handles := (handles w1)(h \<mapsto> a1)\<rparr>
                 in if p \<noteq> NULL then
                      (case null_loop a1 new_size old_size w2 of
                         Inl f \<Rightarrow> Inl f
                       | Inr w3 \<Rightarrow>
                           let a2 = a1\<lparr>maximum_objects := new_size\<rparr>;
                               w4 = w3\<lparr>handles := (handles w3)(h \<mapsto> a2)\<rparr>
                           in if use_chunks a2 then fill_chunks h old_size grow_size w4
                              else Inr (True, w4))
                    else
                      Inr (False, op_error_handler ''Could not realloc while growing pool.'' w2))"

subsection \<open>Low-level interface\<close>

text \<open>
  The scan of \<open>op_ll_allocate_object\<close>, from index \<open>i\<close>. The result is \<open>rv\<close>: the payload
  of the slot taken, or the null pointer when the scan ends without one. After a failed
  \<open>calloc\<close> the scan reports the error and goes on with the next index.
\<close>

function alloc_scan :: "op_allocator \<Rightarrow> nat \<Rightarrow> world \<Rightarrow> fault + (addr \<times> world)" where
  "alloc_scan a i w =
     (if i < maximum_objects a then
        (case read_pool a i w of
           Inl f \<Rightarrow> Inl f
         | Inr p \<Rightarrow>
             if p = NULL then
               (case calloc_ab (object_size a) w of (q, w1) \<Rightarrow>
                  (case write_pool a i q w1 of
                     Inl f \<Rightarrow> Inl f
                   | Inr w2 \<Rightarrow>
                       if q \<noteq> NULL then take_entry a q w2
                       else alloc_scan a (i + 1)
                              (op_error_handler ''Could not allocate desired object.'' w2)))
             else
               (case read_in_use p w of
                  Inl f \<Rightarrow> Inl f
                | Inr u \<Rightarrow>
                    if u = NOT_IN_USE then take_entry a p w
                    else alloc_scan a (i + 1) w))
      else Inr (NULL, w))"
  by pat_completeness auto
termination
  by (relation "measure (\<lambda>(a, i, w). maximum_objects a - i)") auto

declare fill_loop.simps [simp del] null_loop.simps [simp del] alloc_scan.simps [simp del]

text \<open>No step gives back an allocation request: the script only gets shorter.\<close>

lemma heap_alloc_script:
  "heap_alloc n w = (q, w1) \<Longrightarrow> length (script w1) \<le> length (script w)"
  by (auto simp: heap_alloc_def split: list.splits if_splits)

lemma heap_alloc_script_less:
  "heap_alloc n w = (q, w1) \<Longrightarrow> q \<noteq> NULL \<Longrightarrow> length (script w1) < length (script w)"
  by (auto simp: heap_alloc_def split: list.splits if_splits)

lemma heap_free_script: "heap_free p w = Inr w1 \<Longrightarrow> script w1 = script w"
  by (auto simp: heap_free_def split: option.splits if_splits)

lemma write_pool_script: "write_pool a i v w = Inr w1 \<Longrightarrow> script w1 = script w"
  by (auto simp: write_pool_def split: option.splits if_splits)

lemma take_entry_script: "take_entry a p w = Inr (r, w1) \<Longrightarrow> script w1 = script w"
  by (auto simp: take_entry_def memset_data_def write_in_use_def
      split: option.splits if_splits sum.splits)

lemma calloc_ab_script:
  "calloc_ab n w = (q, w1) \<Longrightarrow> length (script w1) \<le> length (script w)"
  by (auto simp: calloc_ab_def calloc_def split: prod.splits if_splits dest: heap_alloc_script)

lemma fill_loop_script:
  "fill_loop a off n c es i w = Inr w1 \<Longrightarrow> script w1 = script w"
proof (induction a off n c es i w rule: fill_loop.induct)
  case (1 a off n c es i w)
  then show ?case
    by (subst (asm) (2) fill_loop.simps)
      (auto split: if_splits sum.splits dest: write_pool_script)
qed

lemma null_loop_script: "null_loop a n i w = Inr w1 \<Longrightarrow> script w1 = script w"
proof (induction a n i w rule: null_loop.induct)
  case (1 a n i w)
  then show ?case
    by (subst (asm) (2) null_loop.simps)
      (auto split: if_splits sum.splits dest: write_pool_script)
qed

lemma alloc_scan_script:
  "alloc_scan a i w = Inr (r, w1) \<Longrightarrow> length (script w1) \<le> length (script w)"
proof (induction a i w rule: alloc_scan.induct)
  case (1 a i w)
  show ?case
  proof (cases "i < maximum_objects a")
    case False
    with "1.prems" show ?thesis
      by (subst (asm) alloc_scan.simps) simp
  next
    case True
    show ?thesis
    proof (cases "read_pool a i w")
      case (Inl f)
      with "1.prems" True show ?thesis
        by (subst (asm) alloc_scan.simps) simp
    next
      case (Inr p)
      show ?thesis
      proof (cases "p = NULL")
        case pnull: True
        obtain q w' where c: "calloc_ab (object_size a) w = (q, w')"
          by (cases "calloc_ab (object_size a) w")
        show ?thesis
        proof (cases "write_pool a i q w'")
          case (Inl f)
          with "1.prems" True Inr pnull c show ?thesis
            by (subst (asm) alloc_scan.simps) simp
        next
          case wp: (Inr w2)
          show ?thesis
          proof (cases "q = NULL")
            case True
            with "1.prems" \<open>i < maximum_objects a\<close> Inr pnull c wp
            have "alloc_scan a (i + 1)
                (op_error_handler ''Could not allocate desired object.'' w2) = Inr (r, w1)"
              by (subst (asm) alloc_scan.simps) simp
            from "1.IH"(1) [OF \<open>i < maximum_objects a\<close> Inr pnull c [symmetric] wp _ this] True
            have "length (script w1) \<le> length (script w2)"
              by (simp add: op_error_handler_def)
            with calloc_ab_script [OF c] write_pool_script [OF wp] show ?thesis
              by simp
          next
            case False
            with "1.prems" \<open>i < maximum_objects a\<close> Inr pnull c wp
            have "take_entry a q w2 = Inr (r, w1)"
              by (subst (asm) alloc_scan.simps) simp
            with calloc_ab_script [OF c] write_pool_script [OF wp] take_entry_script show ?thesis
              by fastforce
          qed
        qed
      next
        case pnn: False
        show ?thesis
        proof (cases "read_in_use p w")
          case (Inl f)
          with "1.prems" True Inr pnn show ?thesis
            by (subst (asm) alloc_scan.simps) simp
        next
          case u: (Inr u)
          show ?thesis
          proof (cases "u = NOT_IN_USE")
            case True
            with "1.prems" \<open>i < maximum_objects a\<close> Inr pnn u
            have "take_entry a p w = Inr (r, w1)"
              by (subst (asm) alloc_scan.simps) simp
            then show ?thesis
              using take_entry_script by fastforce
          next
            case False
            with "1.prems" \<open>i < maximum_objects a\<close> Inr pnn u
            have "alloc_scan a (i + 1) w = Inr (r, w1)"
              by (subst (asm) alloc_scan.simps) simp
            from "1.IH"(2) [OF \<open>i < maximum_objects a\<close> Inr pnn u False this]
            show ?thesis .
          qed
        qed
      qed
    qed
  qed
qed

lemma fill_chunks_script:
  "fill_chunks h off n w = Inr (ok, w1) \<Longrightarrow> length (script w1) \<le> length (script w)"
  by (auto simp: fill_chunks_def calloc_def Let_def op_error_handler_def
      split: option.splits prod.splits if_splits sum.splits
      dest!: fill_loop_script heap_alloc_script)

lemma realloc_dir_script:
  "realloc_dir p n w = Inr (q, w1) \<Longrightarrow> q \<noteq> NULL \<Longrightarrow> length (script w1) < length (script w)"
  by (auto simp: realloc_dir_def Let_def split: prod.splits if_splits sum.splits
      dest!: heap_alloc_script_less heap_free_script)

lemma grow_pool_script:
  "grow_pool h w = Inr (True, w1) \<Longrightarrow> length (script w1) < length (script w)"
  by (auto simp: grow_pool_def Let_def op_error_handler_def
      split: option.splits prod.splits if_splits sum.splits
      dest!: realloc_dir_script null_loop_script fill_chunks_script)

text \<open>
  The body of \<open>op_ll_allocate_object\<close> from the label \<open>retry\<close>: the scan, and when it
  ends without a slot, \<open>grow_pool\<close> and the jump back.
\<close>

function allocate_retry :: "addr \<Rightarrow> world \<Rightarrow> fault + (addr \<times> world)" where
  "allocate_retry h w =
     (case handles w h of
        None \<Rightarrow> Inl BadAccess
      | Some a \<Rightarrow>
          (case alloc_scan a 0 w of
             Inl f \<Rightarrow> Inl f
           | Inr (rv, w1) \<Rightarrow>
               if rv = NULL then
                 (case grow_pool h w1 of
                    Inl f \<Rightarrow> Inl f
                  | Inr (ok, w2) \<Rightarrow>
                      if ok then allocate_retry h w2
                      else Inr (NULL, op_error_handler ''Unable to grow allocation pool.'' w2))
               else Inr (rv, w1)))"
  by pat_completeness auto
termination allocate_retry
proof (relation "measure (\<lambda>(h, w). length (script w))")
  show "wf (measure (\<lambda>(h, w). length (script w)))"
    by simp
next
  fix h w a x rv w1 y ok w2
  assume "alloc_scan a 0 w = Inr x" "(rv, w1) = x" "grow_pool h w1 = Inr y" "(ok, w2) = y" "ok"
  then have "length (script w1) \<le> length (script w)" "length (script w2) < length (script w1)"
    using alloc_scan_script [of a 0 w rv w1] grow_pool_script [of h w1 w2] by auto
  then show "((h, w2), (h, w)) \<in> measure (\<lambda>(h, w). length (script w))"
    by simp
qed

declare allocate_retry.simps [simp del]

definition op_ll_allocate_object :: "addr \<Rightarrow> world \<Rightarrow> fault + (addr \<times> world)" where
  "op_ll_allocate_object h w =
     (let finish = (\<lambda>(rv, w1).
            if rv = NULL then (rv, op_error_handler ''Could not allocate desired object.'' w1)
            else (rv, w1))
      in if h = NULL then
           Inr (finish (NULL, op_error_handler
                  ''Attempted to allocate from uninitialized allocator.'' w))
         else
           (case handles w h of
              None \<Rightarrow> Inl BadAccess
            | Some a \<Rightarrow>
                if initialized a then
                  (case allocate_retry h w of
                     Inl f \<Rightarrow> Inl f
                   | Inr r \<Rightarrow> Inr (finish r))
                else
                  Inr (finish (NULL, op_error_handler
                         ''Attempted to allocate from uninitialized allocator.'' w))))"

text \<open>
  The scan of \<open>op_ll_deallocate_object\<close>. \<open>data\<close> is an array member, so the expression
  \<open>pool[i]->data\<close> is the address \<open>pool[i] + offsetof(_ab_t, data)\<close>: the slot \<open>pool[i]\<close>
  is read, nothing is read through it, and the scan has no test of \<open>pool[i]\<close> for the null
  pointer. At a null slot the address compared with \<open>object\<close> is \<open>data_addr NULL\<close>; when
  the two are equal, \<open>pool[i]->in_use = NOT_IN_USE\<close> is a write through the null pointer.
\<close>

function dealloc_scan :: "op_allocator \<Rightarrow> addr \<Rightarrow> nat \<Rightarrow> world \<Rightarrow> fault + world" where
  "dealloc_scan a object i w =
     (if i < maximum_objects a then
        (case read_pool a i w of
           Inl f \<Rightarrow> Inl f
         | Inr p \<Rightarrow>
             if data_addr p = object then write_in_use p NOT_IN_USE w
             else dealloc_scan a object (i + 1) w)
      else Inr w)"
  by pat_completeness auto
termination
  by (relation "measure (\<lambda>(a, object, i, w). maximum_objects a - i)") auto

definition op_ll_deallocate_object :: "addr \<Rightarrow> addr \<Rightarrow> world \<Rightarrow> fault + world" where
  "op_ll_deallocate_object h object w =
     (if h \<noteq> NULL \<and> object \<noteq> NULL then
        (case handles w h of
           None \<Rightarrow> Inl BadAccess
         | Some a \<Rightarrow> dealloc_scan a object 0 w)
      else Inr (op_error_handler ''Invalid allocator or object while deallocating.'' w))"

text \<open>
  The three loops of \<open>op_ll_deinitialize_allocator\<close>. An index that does not advance
  (\<open>i += 0\<close>, or \<open>i <<= 1\<close> at 0) is the fault \<open>NoProgress\<close>.
\<close>

function free_linear :: "op_allocator \<Rightarrow> nat \<Rightarrow> world \<Rightarrow> fault + world" where
  "free_linear a i w =
     (if i < maximum_objects a then
        (case read_pool a i w of
           Inl f \<Rightarrow> Inl f
         | Inr p \<Rightarrow>
             (case heap_free p w of
                Inl f \<Rightarrow> Inl f
              | Inr w1 \<Rightarrow>
                  if initial_count a = 0 then Inl NoProgress
                  else free_linear a (i + initial_count a) w1))
      else Inr w)"
  by pat_completeness auto
termination
  by (relation "measure (\<lambda>(a, i, w). maximum_objects a - i)") auto

function free_doubling :: "op_allocator \<Rightarrow> nat \<Rightarrow> world \<Rightarrow> fault + world" where
  "free_doubling a i w =
     (if i < maximum_objects a then
        (case read_pool a i w of
           Inl f \<Rightarrow> Inl f
         | Inr p \<Rightarrow>
             (case heap_free p w of
                Inl f \<Rightarrow> Inl f
              | Inr w1 \<Rightarrow>
                  if i = 0 then Inl NoProgress
                  else free_doubling a (2 * i) w1))
      else Inr w)"
  by pat_completeness auto
termination
  by (relation "measure (\<lambda>(a, i, w). maximum_objects a - i)") auto

function free_each :: "op_allocator \<Rightarrow> nat \<Rightarrow> world \<Rightarrow> fault + world" where
  "free_each a i w =
     (if i < maximum_objects a then
        (case read_pool a i w of
           Inl f \<Rightarrow> Inl f
         | Inr p \<Rightarrow>
             (case heap_free p w of
                Inl f \<Rightarrow> Inl f
              | Inr w1 \<Rightarrow> free_each a (i + 1) w1))
      else Inr w)"
  by pat_completeness auto
termination
  by (relation "measure (\<lambda>(a, i, w). maximum_objects a - i)") auto

definition op_ll_deinitialize_allocator :: "addr \<Rightarrow> world \<Rightarrow> fault + world" where
  "op_ll_deinitialize_allocator h w =
     (if h = NULL then
        Inr (op_error_handler
               ''Attempted to deinitialize an allocator that was not initialized.'' w)
      else
        (case handles w h of
           None \<Rightarrow> Inl BadAccess
         | Some a0 \<Rightarrow>
             if initialized a0 then
               (let a = a0\<lparr>initialized := False\<rparr>;
                    w1 = w\<lparr>handles := (handles w)(h \<mapsto> a)\<rparr>;
                    r = (if use_chunks a then
                           (if use_linear a then free_linear a 0 w1
                            else
                              (case read_pool a 0 w1 of
                                 Inl f \<Rightarrow> Inl f
                               | Inr p \<Rightarrow>
                                   (case heap_free p w1 of
                                      Inl f \<Rightarrow> Inl f
                                    | Inr w2 \<Rightarrow> free_doubling a (initial_count a) w2)))
                         else free_each a 0 w1)
                in case r of
                     Inl f \<Rightarrow> Inl f
                   | Inr w3 \<Rightarrow>
                       (case heap_free (pool a) w3 of
                          Inl f \<Rightarrow> Inl f
                        | Inr w4 \<Rightarrow> heap_free h w4))
             else
               Inr (op_error_handler
                      ''Attempted to deinitialize an allocator that was not initialized.'' w)))"

text \<open>
  The loop of \<open>op_ll_get_allocator_stats\<close>: it ends at the first null slot. The function
  only reads, and has no call of \<open>op_error_handler\<close>: the world comes back as it was.
\<close>

function count_active :: "op_allocator \<Rightarrow> nat \<Rightarrow> nat \<Rightarrow> world \<Rightarrow> fault + nat" where
  "count_active a i n w =
     (if i < maximum_objects a then
        (case read_pool a i w of
           Inl f \<Rightarrow> Inl f
         | Inr p \<Rightarrow>
             if p \<noteq> NULL then
               (case read_in_use p w of
                  Inl f \<Rightarrow> Inl f
                | Inr u \<Rightarrow> count_active a (i + 1) (if u = IN_USE then n + 1 else n) w)
             else Inr n)
      else Inr n)"
  by pat_completeness auto
termination
  by (relation "measure (\<lambda>(a, i, n, w). maximum_objects a - i)") auto

definition op_ll_get_allocator_stats ::
    "addr \<Rightarrow> world \<Rightarrow> fault + (op_allocator_stats \<times> world)" where
  "op_ll_get_allocator_stats h w =
     (if h = NULL then Inr (no_stats, w)
      else
        (case handles w h of
           None \<Rightarrow> Inl BadAccess
         | Some a \<Rightarrow>
             if initialized a then
               (case count_active a 0 0 w of
                  Inl f \<Rightarrow> Inl f
                | Inr n \<Rightarrow>
                    Inr (\<lparr>stats_object_size = object_size a,
                          stats_maximum_objects = maximum_objects a,
                          active_objects = n\<rparr>, w))
             else Inr (no_stats, w)))"

definition mode_chunks :: "op_ll_allocator_mode \<Rightarrow> bool" where
  "mode_chunks mode = (mode = OP_DOUBLING_CHUNK \<or> mode = OP_LINEAR_CHUNK)"

definition mode_linear :: "op_ll_allocator_mode \<Rightarrow> bool" where
  "mode_linear mode = (mode = OP_LINEAR_INDIVIDUAL \<or> mode = OP_LINEAR_CHUNK)"

text \<open>
  \<open>op_ll_initialize_allocator\<close>. The two \<open>calloc\<close>s give a zeroed struct and a directory
  of null pointers.
\<close>

definition op_ll_initialize_allocator ::
    "nat \<Rightarrow> nat \<Rightarrow> op_ll_allocator_mode \<Rightarrow> world \<Rightarrow> fault + (addr \<times> world)" where
  "op_ll_initialize_allocator osz count mode w =
     (case calloc 1 sizeof_op_allocator w of (rv, w1) \<Rightarrow>
        if rv \<noteq> NULL then
          (case calloc count sizeof_ptr w1 of (p, w2) \<Rightarrow>
             let a = \<lparr>object_size = osz, initial_count = count, maximum_objects = count,
                      use_chunks = mode_chunks mode, use_linear = mode_linear mode,
                      initialized = True, pool = p\<rparr>;
                 w3 = w2\<lparr>handles := (handles w2)(rv \<mapsto> a)\<rparr>
             in if p \<noteq> NULL then
                  (let w4 = w3\<lparr>dirs := (dirs w3)(p \<mapsto> replicate count NULL)\<rparr>
                   in if mode_chunks mode then
                        (case fill_chunks rv 0 count w4 of
                           Inl f \<Rightarrow> Inl f
                         | Inr (ok, w5) \<Rightarrow>
                             if ok then Inr (rv, w5)
                             else
                               (case heap_free p w5 of
                                  Inl f \<Rightarrow> Inl f
                                | Inr w6 \<Rightarrow>
                                    (case heap_free rv w6 of
                                       Inl f \<Rightarrow> Inl f
                                     | Inr w7 \<Rightarrow> Inr (NULL, w7))))
                      else Inr (rv, w4))
                else
                  (case heap_free rv w3 of
                     Inl f \<Rightarrow> Inl f
                   | Inr w4 \<Rightarrow>
                       Inr (NULL, op_error_handler
                              ''Could not allocate internal space for allocator.'' w4)))
        else
          Inr (NULL, op_error_handler ''Could not allocate space for allocator handle.'' w1))"

declare dealloc_scan.simps [simp del] free_linear.simps [simp del] free_doubling.simps [simp del]
  free_each.simps [simp del] count_active.simps [simp del]

subsection \<open>A heap to start from\<close>

text \<open>Nothing allocated yet, the first block at address 100, the allocation outcomes given.\<close>

definition fresh_world :: "bool list \<Rightarrow> world" where
  "fresh_world scr =
     \<lparr>handles = Map.empty, dirs = Map.empty, entries = Map.empty, blocks = Map.empty,
      brk = 100, script = scr, errlog = [], freed = [], garbage = 1\<rparr>"

text \<open>Running one call after the other, and what a call faulted with.\<close>

definition on_ok :: "fault + 'a \<Rightarrow> ('a \<Rightarrow> fault + 'b) \<Rightarrow> fault + 'b" where
  "on_ok r f = (case r of Inl e \<Rightarrow> Inl e | Inr x \<Rightarrow> f x)"

definition fault_of :: "fault + 'a \<Rightarrow> fault option" where
  "fault_of r = (case r of Inl e \<Rightarrow> Some e | Inr x \<Rightarrow> None)"

section \<open>A failed growth step (C2)\<close>

text \<open>
  C2. The claim: when growing fails while the directory is resized, the handle stays valid
  and usable, its directory pointer still refers to the old directory, and a failed growth
  step rolls back what it had begun.

  The code stores the result of \<open>realloc\<close> into \<open>allocator->pool\<close> before it tests it.
  First run: capacity 1, doubling, individual; one object is allocated, and the \<open>realloc\<close>
  of the second allocation fails. Afterwards \<open>pool\<close> is the null pointer, the old directory
  (at 140, holding the entry at 148) is still a live block that nothing points to, and each
  of the four operations faults on the handle.
  Second run: capacity 2, doubling, chunked; \<open>realloc\<close> succeeds and the \<open>calloc\<close> of
  \<open>fill_chunks\<close> fails. The allocation returns the null pointer, yet \<open>maximum_objects\<close> is 4
  and the directory has moved to 204, with two null slots in a chunked handle.
\<close>

theorem grow_pool_failure_loses_directory:
  "on_ok (op_ll_initialize_allocator 8 1 OP_DOUBLING_INDIVIDUAL
            (fresh_world [True, True, True, False])) (\<lambda>(h, w0).
   on_ok (op_ll_allocate_object h w0) (\<lambda>(p, w1).
   on_ok (op_ll_allocate_object h w1) (\<lambda>(q, w2).
     Inr (p, q, map_option pool (handles w1 h), map_option pool (handles w2 h),
          map_option maximum_objects (handles w2 h), dirs w2 140, blocks w2 140,
          fault_of (op_ll_allocate_object h w2), fault_of (op_ll_deallocate_object h p w2),
          fault_of (op_ll_get_allocator_stats h w2),
          fault_of (op_ll_deinitialize_allocator h w2)))))
   = Inr (152, NULL, Some 140, Some NULL, Some 1, Some [148], Some 8,
          Some NullDeref, Some NullDeref, Some NullDeref, Some NullDeref)
   \<and>
   on_ok (op_ll_initialize_allocator 8 2 OP_DOUBLING_CHUNK
            (fresh_world [True, True, True, True, False])) (\<lambda>(h, w0).
   on_ok (op_ll_allocate_object h w0) (\<lambda>(p1, w1).
   on_ok (op_ll_allocate_object h w1) (\<lambda>(p2, w2).
   on_ok (op_ll_allocate_object h w2) (\<lambda>(q, w3).
     Inr (q, map_option maximum_objects (handles w2 h), map_option pool (handles w2 h),
          map_option maximum_objects (handles w3 h), map_option pool (handles w3 h),
          dirs w3 204)))))
   = Inr (NULL, Some 2, Some 140, Some 4, Some 204, Some [156, 168, NULL, NULL])"
  by code_simp

section \<open>The size of a chunk (C3)\<close>

text \<open>
  C3. The claim: every chunk is a block of exactly \<open>object_count * entry_size\<close> bytes.

  \<open>fill_chunks\<close> computes \<open>chunk_size = object_count * entry_size\<close> and then calls
  \<open>calloc(object_count, chunk_size)\<close>, which multiplies by \<open>object_count\<close> once more.
  Initializing a chunked pool of 4 objects of 8 bytes (entries of 12 bytes) requests a
  block of 192 bytes at 172, not of 48; the four entries lie in its first 48 bytes.
\<close>

theorem fill_chunks_requests_square:
  "on_ok (op_ll_initialize_allocator 8 4 OP_LINEAR_CHUNK (fresh_world [True, True, True]))
     (\<lambda>(h, w). Inr (map_option pool (handles w h), dirs w 140, blocks w 172,
                     4 * (sizeof_ab_t + 8)))
   = Inr (Some 140, Some [172, 184, 196, 208], Some 192, 48)"
  by code_simp

section \<open>Deallocating a pointer the pool does not hold (C4)\<close>

text \<open>
  C4. The claim: for a pointer that is the payload of no slot, in any layout, also when
  some slots have no storage yet, \<open>deallocate\<close> scans the directory without faulting and
  changes nothing.

  The scan compares \<open>object\<close> with \<open>pool[i]->data\<close> without testing \<open>pool[i]\<close>, which
  \<open>allocate\<close>, \<open>get_stats\<close> and \<open>dump_allocator\<close> all do. Capacity 4, doubling, individual,
  one object allocated (entry at 172, payload at 176): the directory is \<open>[172, 0, 0, 0]\<close>.
  A pointer such as 5000 is compared with 176 and with \<open>data_addr NULL\<close>, and the call
  returns without a fault. The pointer 4 is not null and is the payload of no slot, but
  it is \<open>data_addr NULL\<close>: at index 1 the scan takes the null slot for the slot of the
  object and writes \<open>in_use\<close> through the null pointer.
\<close>

theorem deallocate_payload_address_of_null_slot:
  "on_ok (op_ll_initialize_allocator 8 4 OP_DOUBLING_INDIVIDUAL
            (fresh_world [True, True, True])) (\<lambda>(h, w0).
   on_ok (op_ll_allocate_object h w0) (\<lambda>(p, w1).
     Inr (p, dirs w1 140, data_addr NULL, fault_of (op_ll_deallocate_object h 5000 w1),
          fault_of (op_ll_deallocate_object h 4 w1))))
   = Inr (176, Some [172, NULL, NULL, NULL], 4, None, Some NullDeref)"
  by code_simp

section \<open>A request for an entry that fails once (C5, C6)\<close>

text \<open>
  C5. The claim: after any sequence of successful allocate and deallocate calls,
  \<open>active_objects\<close> is the number of objects allocated and not yet deallocated.

  Capacity 2, doubling, individual. In the first allocation the \<open>calloc\<close> for slot 0
  fails; the scan reports it and goes on, and the \<open>calloc\<close> for slot 1 succeeds. The call
  returns the payload 160 of the entry at 156, which is in use, and the directory is
  \<open>[0, 156]\<close>. The count of \<open>get_stats\<close> ends at the null slot 0: it reports 0 active
  objects while one is allocated.
\<close>

theorem stats_miss_object_behind_null_slot:
  "on_ok (op_ll_initialize_allocator 8 2 OP_DOUBLING_INDIVIDUAL
            (fresh_world [True, True, False, True])) (\<lambda>(h, w0).
   on_ok (op_ll_allocate_object h w0) (\<lambda>(p, w1).
   on_ok (op_ll_get_allocator_stats h w1) (\<lambda>(s, w2).
     Inr (p, dirs w1 140, map_option in_use (entries w1 156), active_objects s))))
   = Inr (160, Some [NULL, 156], Some IN_USE, 0)"
  by code_simp

text \<open>
  C6. The claim: with capacity \<open>C\<close>, the first \<open>C\<close> successful allocate calls cause no
  growth, and the next one exactly one growth step.

  Capacity 2, doubling, individual. In the first allocation the \<open>calloc\<close>s for slot 0 and
  slot 1 fail, so the scan ends without a slot and the pool grows, although no slot is in
  use; the scan after the growth succeeds at slot 0. The first successful call returns
  the payload 192 and leaves \<open>maximum_objects\<close> at 4.
\<close>

theorem first_allocation_grows_after_failed_calloc:
  "on_ok (op_ll_initialize_allocator 8 2 OP_DOUBLING_INDIVIDUAL
            (fresh_world [True, True, False, False, True, True])) (\<lambda>(h, w0).
   on_ok (op_ll_allocate_object h w0) (\<lambda>(p, w1).
     Inr (p, map_option maximum_objects (handles w0 h),
          map_option maximum_objects (handles w1 h), dirs w1 156)))
   = Inr (192, Some 2, Some 4, Some [188, NULL, NULL, NULL])"
  by code_simp

section \<open>Calls on a handle that is not initialized (C9)\<close>

text \<open>
  C9. The claim: on a handle that is not initialized, each of \<open>allocate\<close>, \<open>deallocate\<close> and
  \<open>get_stats\<close> reports the invalid handle through the error hook and gives a neutral
  result.

  \<open>op_ll_get_allocator_stats\<close> has no call of the hook: on the null handle it returns the
  empty statistics and the error log stays empty.
\<close>

theorem get_stats_null_handle_is_silent:
  "on_ok (op_ll_get_allocator_stats NULL (fresh_world []))
     (\<lambda>(s, w). Inr (s = no_stats, errlog w = errlog (fresh_world []), errlog w))
   = Inr (True, True, [])"
  by (simp add: on_ok_def op_ll_get_allocator_stats_def fresh_world_def)

text \<open>
  C9, as the code has it. For the null handle, and for a handle whose struct can be read and
  has \<open>initialized = false\<close>: \<open>allocate\<close> reports twice through the hook and returns the
  null pointer, \<open>deinitialize\<close> reports once, \<open>get_stats\<close> returns the empty statistics and
  reports nothing; \<open>deallocate\<close> on the null handle reports once. Each of them leaves the
  heap as it was, the error log apart: nothing is freed.
\<close>

theorem calls_on_invalid_handle:
  assumes "h = NULL \<or> (\<exists>a. handles w h = Some a \<and> \<not> initialized a)"
  shows "op_ll_allocate_object h w =
           Inr (NULL, w\<lparr>errlog := errlog w @
                  [''Attempted to allocate from uninitialized allocator.'',
                   ''Could not allocate desired object.'']\<rparr>)
       \<and> op_ll_deinitialize_allocator h w =
           Inr (w\<lparr>errlog := errlog w @
                  [''Attempted to deinitialize an allocator that was not initialized.'']\<rparr>)
       \<and> op_ll_get_allocator_stats h w = Inr (no_stats, w)
       \<and> op_ll_deallocate_object NULL object w =
           Inr (w\<lparr>errlog := errlog w @
                  [''Invalid allocator or object while deallocating.'']\<rparr>)"
  using assms
  by (auto simp: op_ll_allocate_object_def op_ll_deinitialize_allocator_def
      op_ll_get_allocator_stats_def op_ll_deallocate_object_def op_error_handler_def)

definition stale_world :: world where
  "stale_world =
     (fresh_world [])\<lparr>handles := [100 \<mapsto>
        \<lparr>object_size = 8, initial_count = 4, maximum_objects = 4, use_chunks = False,
         use_linear = False, initialized = False, pool = 140\<rparr>]\<rparr>"

theorem calls_on_invalid_handle_witness:
  "op_ll_allocate_object 100 stale_world =
     Inr (NULL, stale_world\<lparr>errlog := errlog stale_world @
            [''Attempted to allocate from uninitialized allocator.'',
             ''Could not allocate desired object.'']\<rparr>)
   \<and> op_ll_deinitialize_allocator 100 stale_world =
     Inr (stale_world\<lparr>errlog := errlog stale_world @
            [''Attempted to deinitialize an allocator that was not initialized.'']\<rparr>)
   \<and> op_ll_get_allocator_stats 100 stale_world = Inr (no_stats, stale_world)
   \<and> op_ll_deallocate_object NULL 5000 stale_world =
     Inr (stale_world\<lparr>errlog := errlog stale_world @
            [''Invalid allocator or object while deallocating.'']\<rparr>)"
  using calls_on_invalid_handle [of 100 stale_world 5000]
  by (simp add: stale_world_def)

section \<open>The struct of the handle\<close>

text \<open>Only \<open>grow_pool\<close> and \<open>op_ll_deinitialize_allocator\<close> write to the struct.\<close>

lemma write_pool_handles: "write_pool a i v w = Inr w1 \<Longrightarrow> handles w1 = handles w"
  by (auto simp: write_pool_def split: option.splits if_splits)

lemma null_loop_handles: "null_loop a n i w = Inr w1 \<Longrightarrow> handles w1 = handles w"
proof (induction a n i w rule: null_loop.induct)
  case (1 a n i w)
  then show ?case
    by (subst (asm) (2) null_loop.simps)
      (auto split: if_splits sum.splits dest: write_pool_handles)
qed

lemma fill_loop_handles: "fill_loop a off n c es i w = Inr w1 \<Longrightarrow> handles w1 = handles w"
proof (induction a off n c es i w rule: fill_loop.induct)
  case (1 a off n c es i w)
  then show ?case
    by (subst (asm) (2) fill_loop.simps)
      (auto split: if_splits sum.splits dest: write_pool_handles)
qed

lemma heap_alloc_handles: "heap_alloc n w = (q, w1) \<Longrightarrow> handles w1 = handles w"
  by (auto simp: heap_alloc_def split: list.splits if_splits)

lemma fill_chunks_handles: "fill_chunks h off n w = Inr (ok, w1) \<Longrightarrow> handles w1 = handles w"
  by (auto simp: fill_chunks_def calloc_def Let_def op_error_handler_def
      split: option.splits prod.splits if_splits sum.splits
      dest!: fill_loop_handles heap_alloc_handles)

lemma grow_pool_handle:
  assumes "grow_pool h w = Inr (True, w1)" "handles w h = Some a"
  shows "\<exists>p. handles w1 h = Some (a\<lparr>pool := p, maximum_objects :=
           (if use_linear a then maximum_objects a + initial_count a
            else maximum_objects a * 2)\<rparr>)"
  using assms
  by (auto simp: grow_pool_def Let_def
      split: option.splits prod.splits if_splits sum.splits
      dest!: null_loop_handles fill_chunks_handles)


text \<open>Case analysis and induction for the scan and for the retry loop of \<open>allocate\<close>.\<close>

lemma alloc_scan_step [consumes 1, case_names stop fresh nomem reuse skip]:
  assumes "alloc_scan a i w = Inr (r, w')"
  obtains
    "\<not> i < maximum_objects a" "r = NULL" "w' = w"
  | q w1 w2 where "i < maximum_objects a" "read_pool a i w = Inr NULL"
      "calloc_ab (object_size a) w = (q, w1)" "q \<noteq> NULL" "write_pool a i q w1 = Inr w2"
      "take_entry a q w2 = Inr (r, w')"
  | w1 w2 where "i < maximum_objects a" "read_pool a i w = Inr NULL"
      "calloc_ab (object_size a) w = (NULL, w1)" "write_pool a i NULL w1 = Inr w2"
      "alloc_scan a (i + 1) (op_error_handler ''Could not allocate desired object.'' w2)
         = Inr (r, w')"
  | p where "i < maximum_objects a" "read_pool a i w = Inr p" "p \<noteq> NULL"
      "read_in_use p w = Inr NOT_IN_USE" "take_entry a p w = Inr (r, w')"
  | p where "i < maximum_objects a" "read_pool a i w = Inr p" "p \<noteq> NULL"
      "read_in_use p w = Inr IN_USE" "alloc_scan a (i + 1) w = Inr (r, w')"
proof (cases "i < maximum_objects a")
  case False
  with assms that(1) show ?thesis
    by (subst (asm) alloc_scan.simps) simp
next
  case True
  with assms obtain p where p: "read_pool a i w = Inr p"
    by (subst (asm) alloc_scan.simps) (auto split: sum.splits)
  show ?thesis
  proof (cases "p = NULL")
    case pnull: True
    obtain q w1 where c: "calloc_ab (object_size a) w = (q, w1)"
      by (cases "calloc_ab (object_size a) w")
    with assms True p pnull obtain w2 where wp: "write_pool a i q w1 = Inr w2"
      by (subst (asm) alloc_scan.simps) (auto split: sum.splits)
    show ?thesis
    proof (cases "q = NULL")
      case True
      with assms \<open>i < maximum_objects a\<close> p pnull c wp that(3) show ?thesis
        by (subst (asm) alloc_scan.simps) simp
    next
      case False
      with assms \<open>i < maximum_objects a\<close> p pnull c wp that(2) show ?thesis
        by (subst (asm) alloc_scan.simps) simp
    qed
  next
    case pnn: False
    with assms True p obtain u where u: "read_in_use p w = Inr u"
      by (subst (asm) alloc_scan.simps) (auto split: sum.splits)
    show ?thesis
    proof (cases u)
      case NOT_IN_USE
      with assms True p pnn u that(4) show ?thesis
        by (subst (asm) alloc_scan.simps) simp
    next
      case IN_USE
      with assms True p pnn u that(5) show ?thesis
        by (subst (asm) alloc_scan.simps) simp
    qed
  qed
qed

lemma calloc_ab_handles: "calloc_ab n w = (q, w1) \<Longrightarrow> handles w1 = handles w"
  by (auto simp: calloc_ab_def calloc_def split: prod.splits if_splits dest: heap_alloc_handles)

lemma take_entry_handles: "take_entry a p w = Inr (r, w1) \<Longrightarrow> handles w1 = handles w"
  by (auto simp: take_entry_def memset_data_def write_in_use_def
      split: option.splits if_splits sum.splits)

lemma alloc_scan_handles: "alloc_scan a i w = Inr (r, w') \<Longrightarrow> handles w' = handles w"
proof (induction "maximum_objects a - i" arbitrary: i w rule: less_induct)
  case less
  from less.prems show ?case
  proof (cases rule: alloc_scan_step)
    case stop
    then show ?thesis by simp
  next
    case (fresh q w1 w2)
    then show ?thesis
      using calloc_ab_handles write_pool_handles take_entry_handles by metis
  next
    case (nomem w1 w2)
    from less.hyps [OF _ nomem(5)] nomem(1)
    have "handles w' = handles w2"
      by (simp add: op_error_handler_def)
    with nomem show ?thesis
      using calloc_ab_handles write_pool_handles by metis
  next
    case (reuse p)
    then show ?thesis
      using take_entry_handles by metis
  next
    case (skip p)
    from less.hyps [OF _ skip(5)] skip(1) show ?thesis
      by simp
  qed
qed

lemma allocate_retry_step [consumes 1, case_names found failed retry]:
  assumes "allocate_retry h w = Inr (rv, w')"
  obtains
    a where "handles w h = Some a" "alloc_scan a 0 w = Inr (rv, w')" "rv \<noteq> NULL"
  | a w1 w2 where "handles w h = Some a" "alloc_scan a 0 w = Inr (NULL, w1)"
      "grow_pool h w1 = Inr (False, w2)" "rv = NULL"
      "w' = op_error_handler ''Unable to grow allocation pool.'' w2"
  | a w1 w2 where "handles w h = Some a" "alloc_scan a 0 w = Inr (NULL, w1)"
      "grow_pool h w1 = Inr (True, w2)" "allocate_retry h w2 = Inr (rv, w')"
proof -
  from assms obtain a where a: "handles w h = Some a"
    by (subst (asm) allocate_retry.simps) (auto split: option.splits)
  with assms obtain r w1 where sc: "alloc_scan a 0 w = Inr (r, w1)"
    by (subst (asm) allocate_retry.simps) (auto split: sum.splits)
  show ?thesis
  proof (cases "r = NULL")
    case False
    with assms a sc that(1) show ?thesis
      by (subst (asm) allocate_retry.simps) simp
  next
    case True
    with assms a sc obtain ok w2 where gp: "grow_pool h w1 = Inr (ok, w2)"
      by (subst (asm) allocate_retry.simps) (auto split: sum.splits)
    show ?thesis
    proof (cases ok)
      case False
      with assms a sc True gp that(2) show ?thesis
        by (subst (asm) allocate_retry.simps) simp
    next
      case ok: True
      with assms a sc True gp that(3) show ?thesis
        by (subst (asm) allocate_retry.simps) simp
    qed
  qed
qed

lemma allocate_retry_induct [case_names round]:
  assumes "\<And>w. (\<And>a w1 w2. handles w h = Some a \<Longrightarrow> alloc_scan a 0 w = Inr (NULL, w1)
              \<Longrightarrow> grow_pool h w1 = Inr (True, w2) \<Longrightarrow> P w2) \<Longrightarrow> P w"
  shows "P w"
proof (induction "length (script w)" arbitrary: w rule: less_induct)
  case less
  show ?case
  proof (rule assms)
    fix a w1 w2
    assume "handles w h = Some a" "alloc_scan a 0 w = Inr (NULL, w1)"
      "grow_pool h w1 = Inr (True, w2)"
    then have "length (script w2) < length (script w)"
      using alloc_scan_script [of a 0 w NULL w1] grow_pool_script [of h w1 w2] by simp
    then show "P w2" by (rule less.hyps)
  qed
qed


section \<open>Growth steps (C7)\<close>

text \<open>
  \<open>grown h w n w'\<close>: the world \<open>w'\<close> comes from \<open>w\<close> by \<open>n\<close> calls of \<open>grow_pool\<close> on the
  handle \<open>h\<close> that returned \<open>true\<close>, and by any other steps that left the struct of \<open>h\<close> as
  it was (scans, deallocations, writes to the objects).
\<close>

lemma initialize_handle:
  assumes "op_ll_initialize_allocator osz c mode w0 = Inr (h, w)" "h \<noteq> NULL"
  shows "\<exists>p. handles w h =
           Some \<lparr>object_size = osz, initial_count = c, maximum_objects = c,
                 use_chunks = mode_chunks mode, use_linear = mode_linear mode,
                 initialized = True, pool = p\<rparr>"
  using assms
  by (auto simp: op_ll_initialize_allocator_def Let_def calloc_def
      split: prod.splits if_splits sum.splits
      dest!: fill_chunks_handles heap_alloc_handles)

inductive grown :: "addr \<Rightarrow> world \<Rightarrow> nat \<Rightarrow> world \<Rightarrow> bool" where
  grown_start: "grown h w 0 w"
| grown_grow: "grown h w n w1 \<Longrightarrow> grow_pool h w1 = Inr (True, w2) \<Longrightarrow> grown h w (Suc n) w2"
| grown_other: "grown h w n w1 \<Longrightarrow> handles w2 h = handles w1 h \<Longrightarrow> grown h w n w2"

lemma grown_capacity:
  assumes "grown h w n w'" "handles w h = Some a"
  shows "\<exists>a'. handles w' h = Some a' \<and> initial_count a' = initial_count a
           \<and> use_linear a' = use_linear a
           \<and> maximum_objects a' =
               (if use_linear a then maximum_objects a + n * initial_count a
                else maximum_objects a * 2 ^ n)"
  using assms
proof (induction rule: grown.induct)
  case (grown_start h w)
  then show ?case by simp
next
  case (grown_grow h w n w1 w2)
  then obtain a1 where a1: "handles w1 h = Some a1" "initial_count a1 = initial_count a"
    "use_linear a1 = use_linear a"
    "maximum_objects a1 = (if use_linear a then maximum_objects a + n * initial_count a
                else maximum_objects a * 2 ^ n)"
    by blast
  from grow_pool_handle [OF grown_grow.hyps(2) a1(1)] a1(2-) show ?case
    by auto
next
  case (grown_other h w n w1 w2)
  then show ?case by simp
qed


lemma grown_trans: "grown h w1 k w2 \<Longrightarrow> grown h w0 m w1 \<Longrightarrow> grown h w0 (m + k) w2"
  by (induction rule: grown.induct) (auto intro: grown.intros)

text \<open>A successful allocation is such a run: scans, and growth steps that returned \<open>true\<close>.\<close>

lemma allocate_retry_grown:
  "allocate_retry h w = Inr (rv, w') \<Longrightarrow> rv \<noteq> NULL \<Longrightarrow> \<exists>k. grown h w k w'"
proof (induction w rule: allocate_retry_induct [where h = h])
  case (round w)
  from round.prems(1) show ?case
  proof (cases rule: allocate_retry_step)
    case (found a)
    then have "handles w' h = handles w h"
      using alloc_scan_handles [of a 0 w rv w'] by simp
    then have "grown h w 0 w'"
      by (rule grown_other [OF grown_start])
    then show ?thesis ..
  next
    case (failed a w1 w2)
    with round.prems show ?thesis by simp
  next
    case (retry a w1 w2)
    from round.IH [OF retry(1,2,3,4) round.prems(2)] obtain k where "grown h w2 k w'" ..
    moreover have "grown h w 0 w1"
      using alloc_scan_handles [OF retry(2)] by (intro grown_other [OF grown_start]) simp
    then have "grown h w (Suc 0) w2"
      using retry(3) by (rule grown_grow)
    ultimately show ?thesis
      using grown_trans by blast
  qed
qed


text \<open>
  As long as every step of the handle is of this kind, \<open>n\<close> growth steps from the initial
  capacity \<open>c\<close> give \<open>c * 2 ^ n\<close> in the two doubling modes and \<open>c + n * c\<close> in the two
  linear modes.
\<close>

lemma capacity_after_successful_steps:
  assumes "op_ll_initialize_allocator osz c mode w0 = Inr (h, w)" "h \<noteq> NULL"
    and "grown h w n w'"
  shows "\<exists>a. handles w' h = Some a \<and>
           maximum_objects a =
             (case mode of
                OP_DOUBLING_INDIVIDUAL \<Rightarrow> c * 2 ^ n
              | OP_DOUBLING_CHUNK \<Rightarrow> c * 2 ^ n
              | OP_LINEAR_INDIVIDUAL \<Rightarrow> c + n * c
              | OP_LINEAR_CHUNK \<Rightarrow> c + n * c)"
proof -
  from initialize_handle [OF assms(1,2)] obtain a where a: "handles w h = Some a"
    "maximum_objects a = c" "initial_count a = c" "use_linear a = mode_linear mode"
    by auto
  from grown_capacity [OF assms(3) a(1)] a(2-) show ?thesis
    by (cases mode) (auto simp: mode_linear_def)
qed

text \<open>
  C7. The claim: after \<open>n\<close> successful growth events on a handle initialized with capacity
  \<open>c\<close>, \<open>maximum_objects\<close> is \<open>c * 2 ^ n\<close> under doubling and \<open>c + n * c\<close> under linear
  growth.

  In the chunked modes \<open>grow_pool\<close> sets \<open>maximum_objects = new_size\<close> before it calls
  \<open>fill_chunks\<close>, and leaves it there when \<open>fill_chunks\<close> fails and \<open>grow_pool\<close> returns
  \<open>false\<close>. Capacity 2, chunked, six calls of \<open>op_ll_allocate_object\<close>: the third finds
  the pool full, and its growth step fails in \<open>fill_chunks\<close> (the call returns the null
  pointer, with the capacity at 4); the fourth and the fifth take the two null slots; the
  sixth finds the pool full again, and its growth step succeeds. That is one successful
  growth event, and the capacity is 8 under doubling and 6 under linear growth, where
  the claim gives \<open>2 * 2 ^ 1 = 4\<close> and \<open>2 + 1 * 2 = 4\<close>. Listed are \<open>maximum_objects\<close> after
  \<open>initialize\<close> and after each call, the six results, and the messages to
  \<open>op_error_handler\<close>.
\<close>

theorem capacity_after_failed_chunk_growth:
  "map (\<lambda>mode.
     on_ok (op_ll_initialize_allocator 8 2 mode
              (fresh_world [True, True, True, True, False, True, True, True, True]))
       (\<lambda>(h, w0).
     on_ok (op_ll_allocate_object h w0) (\<lambda>(p1, w1).
     on_ok (op_ll_allocate_object h w1) (\<lambda>(p2, w2).
     on_ok (op_ll_allocate_object h w2) (\<lambda>(p3, w3).
     on_ok (op_ll_allocate_object h w3) (\<lambda>(p4, w4).
     on_ok (op_ll_allocate_object h w4) (\<lambda>(p5, w5).
     on_ok (op_ll_allocate_object h w5) (\<lambda>(p6, w6).
       Inr (map (\<lambda>w. map_option maximum_objects (handles w h)) [w0, w1, w2, w3, w4, w5, w6],
            [p1, p2, p3, p4, p5, p6], errlog w6)))))))))
     [OP_DOUBLING_CHUNK, OP_LINEAR_CHUNK]
   = [Inr ([Some 2, Some 2, Some 2, Some 4, Some 4, Some 4, Some 8],
           [160, 172, NULL, 240, 252, 328],
           [''Could not fill chunks when initializing or expanding.'',
            ''Unable to grow allocation pool.'',
            ''Could not allocate desired object.'']),
      Inr ([Some 2, Some 2, Some 2, Some 4, Some 4, Some 4, Some 6],
           [160, 172, NULL, 240, 252, 312],
           [''Could not fill chunks when initializing or expanding.'',
            ''Unable to grow allocation pool.'',
            ''Could not allocate desired object.''])]"
  by code_simp

text \<open>Capacity 3, doubling, two growth steps that succeed: 12.\<close>

definition world_of :: "fault + ('a \<times> world) \<Rightarrow> world" where
  "world_of r = (case r of Inr (x, w) \<Rightarrow> w | Inl f \<Rightarrow> fresh_world [])"

definition doubling_w0 :: world where
  "doubling_w0 = world_of (op_ll_initialize_allocator 8 3 OP_DOUBLING_INDIVIDUAL
     (fresh_world [True, True, True, True]))"

definition doubling_w1 :: world where
  "doubling_w1 = world_of (grow_pool 100 doubling_w0)"

definition doubling_w2 :: world where
  "doubling_w2 = world_of (grow_pool 100 doubling_w1)"

lemma replicate_numeral_eval: "replicate (numeral k) x = x # replicate (pred_numeral k) x"
  by (simp add: numeral_eq_Suc)

lemmas eval_defs = op_ll_initialize_allocator_def calloc_def heap_alloc_def fresh_world_def
  sizeof_op_allocator_def sizeof_ptr_def sizeof_ab_t_def mode_chunks_def mode_linear_def
  fill_chunks_def fill_loop.simps write_pool_def chunk_entries_def zero_ab_def Let_def
  op_error_handler_def heap_free_def outside_def replicate_numeral_eval world_of_def
  grow_pool_def realloc_dir_def null_loop.simps

lemma capacity_after_two_steps:
  "op_ll_initialize_allocator 8 3 OP_DOUBLING_INDIVIDUAL (fresh_world [True, True, True, True])
     = Inr (100, doubling_w0)
   \<and> grown 100 doubling_w0 2 doubling_w2
   \<and> (\<exists>a. handles doubling_w2 100 = Some a \<and> maximum_objects a = 12)"
proof -
  have i: "op_ll_initialize_allocator 8 3 OP_DOUBLING_INDIVIDUAL
      (fresh_world [True, True, True, True]) = Inr (100, doubling_w0)"
    by (simp add: doubling_w0_def eval_defs)
  have g1: "grow_pool 100 doubling_w0 = Inr (True, doubling_w1)"
    by (simp add: doubling_w1_def doubling_w0_def eval_defs)
  have g2: "grow_pool 100 doubling_w1 = Inr (True, doubling_w2)"
    by (simp add: doubling_w2_def doubling_w1_def doubling_w0_def eval_defs)
  have g: "grown 100 doubling_w0 2 doubling_w2"
    using grown_grow [OF grown_grow [OF grown_start g1] g2] by (simp add: numeral_2_eq_2)
  from capacity_after_successful_steps [OF i _ g] i g show ?thesis
    by simp
qed

section \<open>The slot that an allocation takes (C10)\<close>

text \<open>
  \<open>extends w w'\<close>: the heap \<open>w'\<close> has the entries of \<open>w\<close>, unchanged or released, and maybe
  new ones at addresses that were not in use in \<open>w\<close>.
\<close>

definition extends :: "world \<Rightarrow> world \<Rightarrow> bool" where
  "extends w w' \<longleftrightarrow>
     brk w \<le> brk w' \<and> (\<forall>q < brk w. entries w' q = entries w q \<or> entries w' q = None)"



lemma extends_same: "brk w' = brk w \<Longrightarrow> entries w' = entries w \<Longrightarrow> extends w w'"
  by (simp add: extends_def)

lemma heap_alloc_extends: "heap_alloc n w = (q, w1) \<Longrightarrow> extends w w1 \<and> entries w1 = entries w"
  by (auto simp: heap_alloc_def extends_def split: list.splits if_splits)

lemma heap_alloc_fresh:
  "heap_alloc n w = (q, w1) \<Longrightarrow> q \<noteq> NULL \<Longrightarrow> q = brk w \<and> brk w1 = brk w + max n 1"
  by (auto simp: heap_alloc_def split: list.splits if_splits)

lemma heap_free_extends: "heap_free p w = Inr w1 \<Longrightarrow> extends w w1"
  by (auto simp: heap_free_def extends_def outside_def split: option.splits if_splits)






definition grow_size :: "op_allocator \<Rightarrow> nat" where
  "grow_size a = (if use_linear a then initial_count a else maximum_objects a)"

definition new_size :: "op_allocator \<Rightarrow> nat" where
  "new_size a = maximum_objects a + grow_size a"

lemma grow_pool_step [consumes 2, case_names realloc_failed individual chunked]:
  assumes "grow_pool h w = Inr (ok, w')" "handles w h = Some a"
  obtains
    w1 where "realloc_dir (pool a) (new_size a) w = Inr (NULL, w1)" "\<not> ok"
      "w' = op_error_handler ''Could not realloc while growing pool.''
              (w1\<lparr>handles := (handles w1)(h \<mapsto> a\<lparr>pool := NULL\<rparr>)\<rparr>)"
  | p w1 w3 where "realloc_dir (pool a) (new_size a) w = Inr (p, w1)" "p \<noteq> NULL"
      "null_loop (a\<lparr>pool := p\<rparr>) (new_size a) (maximum_objects a)
         (w1\<lparr>handles := (handles w1)(h \<mapsto> a\<lparr>pool := p\<rparr>)\<rparr>) = Inr w3"
      "\<not> use_chunks a" "ok"
      "w' = w3\<lparr>handles := (handles w3)(h \<mapsto> a\<lparr>pool := p, maximum_objects := new_size a\<rparr>)\<rparr>"
  | p w1 w3 where "realloc_dir (pool a) (new_size a) w = Inr (p, w1)" "p \<noteq> NULL"
      "null_loop (a\<lparr>pool := p\<rparr>) (new_size a) (maximum_objects a)
         (w1\<lparr>handles := (handles w1)(h \<mapsto> a\<lparr>pool := p\<rparr>)\<rparr>) = Inr w3"
      "use_chunks a"
      "fill_chunks h (maximum_objects a) (grow_size a)
         (w3\<lparr>handles := (handles w3)(h \<mapsto> a\<lparr>pool := p, maximum_objects := new_size a\<rparr>)\<rparr>)
         = Inr (ok, w')"
proof -
  have ns: "(if use_linear a then maximum_objects a + grow_size a
      else maximum_objects a * 2) = new_size a"
    by (simp add: new_size_def grow_size_def)
  have gs: "(if use_linear a then initial_count a else maximum_objects a) = grow_size a"
    by (simp add: grow_size_def)
  have unfold: "grow_pool h w =
    (case realloc_dir (pool a) (new_size a) w of
       Inl f \<Rightarrow> Inl f
     | Inr (p, w1) \<Rightarrow>
         if p \<noteq> NULL then
           (case null_loop (a\<lparr>pool := p\<rparr>) (new_size a) (maximum_objects a)
                   (w1\<lparr>handles := (handles w1)(h \<mapsto> a\<lparr>pool := p\<rparr>)\<rparr>) of
              Inl f \<Rightarrow> Inl f
            | Inr w3 \<Rightarrow>
                if use_chunks a then
                  fill_chunks h (maximum_objects a) (grow_size a)
                    (w3\<lparr>handles := (handles w3)(h \<mapsto>
                       a\<lparr>pool := p, maximum_objects := new_size a\<rparr>)\<rparr>)
                else Inr (True, w3\<lparr>handles := (handles w3)(h \<mapsto>
                       a\<lparr>pool := p, maximum_objects := new_size a\<rparr>)\<rparr>))
         else Inr (False, op_error_handler ''Could not realloc while growing pool.''
                (w1\<lparr>handles := (handles w1)(h \<mapsto> a\<lparr>pool := p\<rparr>)\<rparr>)))"
    unfolding grow_pool_def Let_def assms(2) option.case ns gs
    by (simp split: sum.splits prod.splits)
  from assms(1) obtain p w1 where r: "realloc_dir (pool a) (new_size a) w = Inr (p, w1)"
    unfolding unfold by (auto split: sum.splits)
  show ?thesis
  proof (cases "p = NULL")
    case True
    with assms(1) r that(1) show ?thesis
      unfolding unfold by auto
  next
    case False
    with assms(1) r obtain w3 where n: "null_loop (a\<lparr>pool := p\<rparr>) (new_size a)
        (maximum_objects a) (w1\<lparr>handles := (handles w1)(h \<mapsto> a\<lparr>pool := p\<rparr>)\<rparr>) = Inr w3"
      unfolding unfold by (auto split: sum.splits)
    show ?thesis
    proof (cases "use_chunks a")
      case True
      with assms(1) r False n that(3) show ?thesis
        unfolding unfold by auto
    next
      case uc: False
      with assms(1) r False n that(2) show ?thesis
        unfolding unfold by auto
    qed
  qed
qed


lemma op_error_handler_fields [simp]:
  "handles (op_error_handler m w) = handles w" "dirs (op_error_handler m w) = dirs w"
  "entries (op_error_handler m w) = entries w" "blocks (op_error_handler m w) = blocks w"
  "brk (op_error_handler m w) = brk w" "script (op_error_handler m w) = script w"
  "freed (op_error_handler m w) = freed w" "garbage (op_error_handler m w) = garbage w"
  by (simp_all add: op_error_handler_def)

definition flag :: "world \<Rightarrow> addr \<Rightarrow> active option" where
  "flag w q = map_option in_use (entries w q)"

lemma data_addr_inj [simp]: "data_addr p = data_addr q \<longleftrightarrow> p = q"
  by (simp add: data_addr_def)












text \<open>Capacity 3, one object allocated (entry 164): the next allocation takes entry 176.\<close>

definition one_object_w :: world where
  "one_object_w = world_of (op_ll_allocate_object 100 doubling_w0)"

definition two_objects_w :: world where
  "two_objects_w = world_of (op_ll_allocate_object 100 one_object_w)"

lemmas eval_alloc_defs = op_ll_allocate_object_def allocate_retry.simps alloc_scan.simps
  read_pool_def calloc_ab_def take_entry_def memset_data_def write_in_use_def read_in_use_def
  data_addr_def


section \<open>Well-formed heaps\<close>

text \<open>
  \<open>heap_ok\<close>: what the C library keeps true of its blocks. They lie below \<open>brk\<close>, none at
  the null address, and no two of them overlap.
\<close>

definition heap_ok :: "world \<Rightarrow> bool" where
  "heap_ok w \<longleftrightarrow>
     0 < brk w
     \<and> (\<forall>x n. blocks w x = Some n \<longrightarrow> 0 < x \<and> x + max n 1 \<le> brk w)
     \<and> (\<forall>x y n m. blocks w x = Some n \<and> blocks w y = Some m \<and> x < y \<longrightarrow> x + max n 1 \<le> y)"

definition in_block :: "world \<Rightarrow> addr \<Rightarrow> addr \<Rightarrow> bool" where
  "in_block w b x \<longleftrightarrow> (\<exists>n. blocks w b = Some n \<and> b \<le> x \<and> x < b + max n 1)"

lemma in_block_base: "blocks w b = Some n \<Longrightarrow> in_block w b b"
  by (auto simp: in_block_def)

lemma in_block_below_brk: "heap_ok w \<Longrightarrow> in_block w b x \<Longrightarrow> x < brk w \<and> 0 < b \<and> b < brk w"
  by (fastforce simp: heap_ok_def in_block_def)

lemma in_block_unique:
  assumes "heap_ok w" "in_block w b x" "in_block w b' x"
  shows "b = b'"
proof (rule ccontr)
  assume "b \<noteq> b'"
  then consider "b < b'" | "b' < b" by linarith
  then show False
    using assms unfolding heap_ok_def in_block_def
    by cases (fastforce)+
qed

text \<open>What a successful request changes.\<close>

lemma heap_alloc_ok:
  assumes "heap_alloc n w = (q, w1)" "q \<noteq> NULL"
  shows "q = brk w" "handles w1 = handles w" "dirs w1 = dirs w" "entries w1 = entries w"
    "blocks w1 = (blocks w)(q \<mapsto> n)" "brk w1 = brk w + max n 1" "freed w1 = freed w"
    "garbage w1 = garbage w" "errlog w1 = errlog w"
  using assms by (auto simp: heap_alloc_def split: list.splits if_splits)

lemma heap_alloc_failed:
  assumes "heap_alloc n w = (NULL, w1)" "0 < brk w"
  shows "handles w1 = handles w" "dirs w1 = dirs w" "entries w1 = entries w"
    "blocks w1 = blocks w" "brk w1 = brk w" "freed w1 = freed w" "garbage w1 = garbage w"
    "errlog w1 = errlog w"
  using assms by (auto simp: heap_alloc_def split: list.splits if_splits)

lemma heap_ok_alloc:
  assumes "heap_ok w" "heap_alloc n w = (q, w1)"
  shows "heap_ok w1"
proof (cases "q = NULL")
  case True
  with assms heap_alloc_failed [of n w w1] show ?thesis
    by (simp add: heap_ok_def)
next
  case False
  note f = heap_alloc_ok [OF assms(2) False]
  show ?thesis
    unfolding heap_ok_def f
    using assms(1) unfolding heap_ok_def
    by (auto simp: f(1) split: if_splits) (fastforce+)?
qed

lemma heap_free_ok:
  assumes "heap_free p w = Inr w1" "p \<noteq> NULL"
  shows "\<exists>n. blocks w p = Some n \<and> handles w1 = outside p n (handles w)
           \<and> dirs w1 = outside p n (dirs w) \<and> entries w1 = outside p n (entries w)"
    "blocks w1 = (blocks w)(p := None)" "brk w1 = brk w" "freed w1 = freed w @ [p]"
    "garbage w1 = garbage w" "errlog w1 = errlog w" "script w1 = script w"
  using assms by (auto simp: heap_free_def split: option.splits if_splits)

lemma heap_free_null:
  "heap_free NULL w = Inr (w\<lparr>freed := freed w @ [NULL]\<rparr>)"
  by (simp add: heap_free_def)

lemma heap_ok_free:
  assumes "heap_ok w" "heap_free p w = Inr w1"
  shows "heap_ok w1"
proof (cases "p = NULL")
  case True
  with assms show ?thesis
    by (auto simp: heap_free_null heap_ok_def)
next
  case False
  from heap_free_ok(2,3) [OF assms(2) False]
  have f: "blocks w1 = (blocks w)(p := None)" "brk w1 = brk w" .
  show ?thesis
    using assms(1) unfolding heap_ok_def f
    by (auto split: if_splits)
qed

text \<open>An object in another block survives the release of a block.\<close>

lemma outside_other_block:
  assumes "heap_ok w" "blocks w p = Some n" "in_block w b x" "b \<noteq> p"
  shows "outside p n m x = m x"
proof -
  from assms(3) obtain k where k: "blocks w b = Some k" "b \<le> x" "x < b + max k 1"
    by (auto simp: in_block_def)
  from assms(4) consider "b < p" | "p < b" by linarith
  then have "\<not> (p \<le> x \<and> x < p + max n 1)"
  proof cases
    case 1
    with assms(1,2) k have "b + max k 1 \<le> p"
      unfolding heap_ok_def by blast
    with k show ?thesis by simp
  next
    case 2
    with assms(1,2) k have "p + max n 1 \<le> b"
      unfolding heap_ok_def by blast
    with k show ?thesis by simp
  qed
  then show ?thesis
    by (auto simp: outside_def)
qed

text \<open>The accesses, and the two loops that fill the directory, in closed form.\<close>

lemma read_pool_Inr:
  "read_pool a i w = Inr p \<longleftrightarrow>
     pool a \<noteq> NULL \<and> (\<exists>d. dirs w (pool a) = Some d \<and> i < length d \<and> p = d ! i)"
  by (auto simp: read_pool_def split: option.splits)

lemma write_pool_Inr:
  "write_pool a i v w = Inr w1 \<longleftrightarrow>
     pool a \<noteq> NULL \<and> (\<exists>d. dirs w (pool a) = Some d \<and> i < length d
        \<and> w1 = w\<lparr>dirs := (dirs w)(pool a \<mapsto> d[i := v])\<rparr>)"
  by (auto simp: write_pool_def split: option.splits)

lemma take_entry_Inr:
  "take_entry a p w = Inr (r, w1) \<longleftrightarrow>
     p \<noteq> NULL \<and> r = data_addr p \<and> (\<exists>e. entries w p = Some e
        \<and> w1 = w\<lparr>entries := (entries w)(p \<mapsto>
               e\<lparr>data := replicate (object_size a) 0, in_use := IN_USE\<rparr>)\<rparr>)"
  by (auto simp: take_entry_def memset_data_def write_in_use_def split: option.splits)

lemma read_in_use_Inr:
  "read_in_use p w = Inr u \<longleftrightarrow> p \<noteq> NULL \<and> (\<exists>e. entries w p = Some e \<and> u = in_use e)"
  by (auto simp: read_in_use_def split: option.splits)

lemma write_in_use_Inr:
  "write_in_use p v w = Inr w1 \<longleftrightarrow>
     p \<noteq> NULL \<and> (\<exists>e. entries w p = Some e
        \<and> w1 = w\<lparr>entries := (entries w)(p \<mapsto> e\<lparr>in_use := v\<rparr>)\<rparr>)"
  by (auto simp: write_in_use_def split: option.splits)

lemma same_dirs [simp]: "dirs w p = Some d \<Longrightarrow> w\<lparr>dirs := (dirs w)(p \<mapsto> d)\<rparr> = w"
  by (simp add: fun_upd_idem)

lemma null_loop_closed:
  assumes "null_loop a n i w = Inr w1" "dirs w (pool a) = Some d" "i \<le> n"
  shows "(i < n \<longrightarrow> n \<le> length d)
       \<and> w1 = w\<lparr>dirs := (dirs w)(pool a \<mapsto> take i d @ replicate (n - i) NULL @ drop n d)\<rparr>"
  using assms
proof (induction "n - i" arbitrary: i w d)
  case 0
  then have "i = n" by simp
  with "0.prems"(1) have "w1 = w"
    by (subst (asm) null_loop.simps) simp
  moreover have "(dirs w)(pool a \<mapsto> d) = dirs w"
    using "0.prems"(2) by (simp add: fun_upd_idem)
  ultimately show ?case
    using \<open>i = n\<close> by simp
next
  case (Suc k)
  then have lt: "i < n" by simp
  with Suc.prems(1) obtain w2 where w2: "write_pool a i NULL w = Inr w2"
    "null_loop a n (i + 1) w2 = Inr w1"
    by (subst (asm) null_loop.simps) (auto split: sum.splits)
  from w2(1) Suc.prems(2) have i: "i < length d"
    and w2eq: "w2 = w\<lparr>dirs := (dirs w)(pool a \<mapsto> d[i := NULL])\<rparr>"
    by (auto simp: write_pool_Inr)
  have d2: "dirs w2 (pool a) = Some (d[i := NULL])"
    by (simp add: w2eq)
  from Suc.hyps(2) lt have k: "k = n - (i + 1)" by simp
  from Suc.hyps(1) [OF k w2(2) d2] lt
  have n: "i + 1 < n \<longrightarrow> n \<le> length d"
    and w1: "w1 = w2\<lparr>dirs := (dirs w2)(pool a \<mapsto>
        take (i + 1) (d[i := NULL]) @ replicate (n - (i + 1)) NULL @ drop n (d[i := NULL]))\<rparr>"
    by simp_all
  from n i lt have nd: "n \<le> length d"
    by (cases "i + 1 < n") auto
  have "take (i + 1) (d[i := NULL]) @ replicate (n - (i + 1)) NULL @ drop n (d[i := NULL])
      = take i d @ replicate (n - i) NULL @ drop n d"
  proof -
    have "take (i + 1) (d[i := NULL]) = take i d @ [NULL]"
      using i by (simp add: take_Suc_conv_app_nth)
    moreover have "drop n (d[i := NULL]) = drop n d"
      using lt by simp
    moreover have "replicate (n - i) NULL = NULL # replicate (n - (i + 1)) (NULL::nat)"
      using lt by (cases "n - i") auto
    ultimately show ?thesis by simp
  qed
  with w1 nd show ?case
    by (simp add: w2eq)
qed

lemma fill_loop_closed:
  assumes "fill_loop a off n c es i w = Inr w1" "dirs w (pool a) = Some d" "i \<le> n"
  shows "(i < n \<longrightarrow> off + n \<le> length d)
       \<and> w1 = w\<lparr>dirs := (dirs w)(pool a \<mapsto>
              take (off + i) d @ map (\<lambda>j. c + j * es) [i..<n] @ drop (off + n) d)\<rparr>"
  using assms
proof (induction "n - i" arbitrary: i w d)
  case 0
  then have "i = n" by simp
  with "0.prems"(1) have "w1 = w"
    by (subst (asm) fill_loop.simps) simp
  moreover have "(dirs w)(pool a \<mapsto> d) = dirs w"
    using "0.prems"(2) by (simp add: fun_upd_idem)
  ultimately show ?case
    using \<open>i = n\<close> by simp
next
  case (Suc k)
  then have lt: "i < n" by simp
  with Suc.prems(1) obtain w2 where w2: "write_pool a (i + off) (c + i * es) w = Inr w2"
    "fill_loop a off n c es (i + 1) w2 = Inr w1"
    by (subst (asm) fill_loop.simps) (auto split: sum.splits)
  from w2(1) Suc.prems(2) have i: "off + i < length d"
    and w2eq: "w2 = w\<lparr>dirs := (dirs w)(pool a \<mapsto> d[off + i := c + i * es])\<rparr>"
    by (auto simp: write_pool_Inr add.commute)
  have d2: "dirs w2 (pool a) = Some (d[off + i := c + i * es])"
    by (simp add: w2eq)
  from Suc.hyps(2) lt have k: "k = n - (i + 1)" by simp
  from Suc.hyps(1) [OF k w2(2) d2] lt
  have n: "i + 1 < n \<longrightarrow> off + n \<le> length d"
    and w1: "w1 = w2\<lparr>dirs := (dirs w2)(pool a \<mapsto>
        take (off + (i + 1)) (d[off + i := c + i * es]) @ map (\<lambda>j. c + j * es) [i + 1..<n]
          @ drop (off + n) (d[off + i := c + i * es]))\<rparr>"
    by simp_all
  from n i lt have nd: "off + n \<le> length d"
    by (cases "i + 1 < n") auto
  have "take (off + (i + 1)) (d[off + i := c + i * es]) @ map (\<lambda>j. c + j * es) [i + 1..<n]
          @ drop (off + n) (d[off + i := c + i * es])
      = take (off + i) d @ map (\<lambda>j. c + j * es) [i..<n] @ drop (off + n) d"
  proof -
    have "take (off + (i + 1)) (d[off + i := c + i * es]) = take (off + i) d @ [c + i * es]"
      using i by (simp add: take_Suc_conv_app_nth)
    moreover have "drop (off + n) (d[off + i := c + i * es]) = drop (off + n) d"
      using lt by simp
    moreover have "[i..<n] = i # [i + 1..<n]"
      using lt by (simp add: upt_conv_Cons)
    ultimately show ?thesis by simp
  qed
  with w1 nd show ?case
    by (simp add: w2eq)
qed

section \<open>The invariant of a pool\<close>

text \<open>
  \<open>pool_inv h a d w\<close>: in the heap \<open>w\<close> the handle \<open>h\<close> points to the live, initialized
  struct \<open>a\<close>, whose directory \<open>d\<close> is live and has \<open>maximum_objects\<close> slots; every slot
  is null or points to a live entry inside a block other than the struct and the directory;
  and no entry appears in two slots.
\<close>

definition slot_ok :: "addr \<Rightarrow> op_allocator \<Rightarrow> world \<Rightarrow> addr \<Rightarrow> bool" where
  "slot_ok h a w p \<longleftrightarrow>
     p = NULL \<or> (entries w p \<noteq> None \<and> (\<exists>b. in_block w b p \<and> b \<noteq> h \<and> b \<noteq> pool a))"

definition pool_inv :: "addr \<Rightarrow> op_allocator \<Rightarrow> addr list \<Rightarrow> world \<Rightarrow> bool" where
  "pool_inv h a d w \<longleftrightarrow>
     heap_ok w \<and> handles w h = Some a \<and> dirs w (pool a) = Some d
     \<and> length d = maximum_objects a \<and> initialized a
     \<and> h \<noteq> NULL \<and> pool a \<noteq> NULL \<and> pool a \<noteq> h
     \<and> blocks w h \<noteq> None \<and> blocks w (pool a) \<noteq> None
     \<and> (\<forall>i<length d. slot_ok h a w (d ! i))
     \<and> (\<forall>i<length d. \<forall>j<length d. i \<noteq> j \<longrightarrow> d ! i \<noteq> NULL \<longrightarrow> d ! i \<noteq> d ! j)"

lemma pool_invD:
  assumes "pool_inv h a d w"
  shows "heap_ok w" "handles w h = Some a" "dirs w (pool a) = Some d"
    "length d = maximum_objects a" "initialized a" "h \<noteq> NULL" "pool a \<noteq> NULL" "pool a \<noteq> h"
    "blocks w h \<noteq> None" "blocks w (pool a) \<noteq> None"
    "\<And>i. i < length d \<Longrightarrow> slot_ok h a w (d ! i)"
    "\<And>i j. i < length d \<Longrightarrow> j < length d \<Longrightarrow> i \<noteq> j \<Longrightarrow> d ! i \<noteq> NULL \<Longrightarrow> d ! i \<noteq> d ! j"
  using assms unfolding pool_inv_def by blast+

lemma pool_invI:
  assumes "heap_ok w" "handles w h = Some a" "dirs w (pool a) = Some d"
    "length d = maximum_objects a" "initialized a" "h \<noteq> NULL" "pool a \<noteq> NULL" "pool a \<noteq> h"
    "blocks w h \<noteq> None" "blocks w (pool a) \<noteq> None"
    "\<And>i. i < length d \<Longrightarrow> slot_ok h a w (d ! i)"
    "\<And>i j. i < length d \<Longrightarrow> j < length d \<Longrightarrow> i \<noteq> j \<Longrightarrow> d ! i \<noteq> NULL \<Longrightarrow> d ! i \<noteq> d ! j"
  shows "pool_inv h a d w"
  using assms unfolding pool_inv_def by blast

lemma slot_ok_mono:
  assumes "slot_ok h a w p" "entries w p \<noteq> None \<Longrightarrow> entries w' p \<noteq> None"
    "\<And>b. in_block w b p \<Longrightarrow> in_block w' b p"
  shows "slot_ok h a w' p"
  using assms unfolding slot_ok_def by blast

lemma heap_ok_block:
  "heap_ok w \<Longrightarrow> blocks w x = Some n \<Longrightarrow> 0 < x \<and> x + max n 1 \<le> brk w"
  unfolding heap_ok_def by blast

lemma heap_ok_disjoint:
  "heap_ok w \<Longrightarrow> blocks w x = Some n \<Longrightarrow> blocks w y = Some m \<Longrightarrow> x < y
    \<Longrightarrow> x + max n 1 \<le> y"
  unfolding heap_ok_def by blast

lemma heap_okI:
  assumes "0 < brk w"
    and "\<And>x n. blocks w x = Some n \<Longrightarrow> 0 < x \<and> x + max n 1 \<le> brk w"
    and "\<And>x y n m. blocks w x = Some n \<Longrightarrow> blocks w y = Some m \<Longrightarrow> x < y
       \<Longrightarrow> x + max n 1 \<le> y"
  shows "heap_ok w"
  unfolding heap_ok_def using assms by blast

lemma heap_ok_same:
  assumes "heap_ok w" "blocks w' = blocks w" "brk w' = brk w"
  shows "heap_ok w'"
  using assms by (simp add: heap_ok_def)

lemma in_block_same:
  assumes "in_block w b x" "blocks w' = blocks w"
  shows "in_block w' b x"
  using assms by (simp add: in_block_def)

lemma pool_inv_fields:
  assumes inv: "pool_inv h a d w" and f: "handles w' = handles w" "dirs w' = dirs w"
    "entries w' = entries w" "blocks w' = blocks w" "brk w' = brk w"
  shows "pool_inv h a d w'"
proof (rule pool_invI)
  show "heap_ok w'"
    using pool_invD(1) [OF inv] f(4,5) by (rule heap_ok_same)
  show "slot_ok h a w' (d ! i)" if "i < length d" for i
    using pool_invD(11) [OF inv that]
    by (rule slot_ok_mono) (simp_all add: f in_block_same [OF _ f(4)])
qed (use pool_invD [OF inv] f in simp_all)

lemma pool_inv_entry_update:
  assumes inv: "pool_inv h a d w" and p: "entries w p \<noteq> None"
  shows "pool_inv h a d (w\<lparr>entries := (entries w)(p \<mapsto> e)\<rparr>)"
proof (rule pool_invI)
  let ?w = "w\<lparr>entries := (entries w)(p \<mapsto> e)\<rparr>"
  show "heap_ok ?w"
    using pool_invD(1) [OF inv] by (rule heap_ok_same) simp_all
  show "slot_ok h a ?w (d ! i)" if "i < length d" for i
    using pool_invD(11) [OF inv that]
    by (rule slot_ok_mono) (simp_all add: in_block_def)
qed (use pool_invD [OF inv] in simp_all)

lemma slot_below_brk:
  assumes "heap_ok w" "slot_ok h a w p" "p \<noteq> NULL"
  shows "p < brk w"
  using assms in_block_below_brk by (auto simp: slot_ok_def)

lemma calloc_ab_Inr:
  assumes "calloc_ab n w = (q, w1)" "q \<noteq> NULL"
  shows "q = brk w" "handles w1 = handles w" "dirs w1 = dirs w"
    "entries w1 = (entries w)(q \<mapsto> zero_ab n)"
    "blocks w1 = (blocks w)(q \<mapsto> sizeof_ab_t + n)" "brk w1 = brk w + max (sizeof_ab_t + n) 1"
    "freed w1 = freed w" "errlog w1 = errlog w"
  using assms
  by (auto simp: calloc_ab_def calloc_def heap_alloc_def
      split: prod.splits if_splits list.splits)

lemma calloc_ab_NULL:
  assumes "calloc_ab n w = (NULL, w1)" "0 < brk w"
  shows "handles w1 = handles w" "dirs w1 = dirs w" "entries w1 = entries w"
    "blocks w1 = blocks w" "brk w1 = brk w" "freed w1 = freed w" "errlog w1 = errlog w"
  using assms
  by (auto simp: calloc_ab_def calloc_def heap_alloc_def
      split: prod.splits if_splits list.splits)

lemma blocks_brk_None:
  assumes "heap_ok w"
  shows "blocks w (brk w) = None"
proof (cases "blocks w (brk w)")
  case (Some n)
  from heap_ok_block [OF assms Some] show ?thesis by simp
qed simp

lemma heap_ok_new_block:
  assumes "heap_ok w" "blocks w1 = (blocks w)(brk w \<mapsto> n)" "brk w1 = brk w + max n 1"
  shows "heap_ok w1"
proof (rule heap_okI)
  show "0 < brk w1"
    using assms(1,3) by (simp add: heap_ok_def)
next
  fix x k
  assume b: "blocks w1 x = Some k"
  show "0 < x \<and> x + max k 1 \<le> brk w1"
  proof (cases "x = brk w")
    case True
    with b assms(2) have "k = n" by simp
    with True assms(1,3) show ?thesis by (simp add: heap_ok_def)
  next
    case False
    with b assms(2) have "blocks w x = Some k" by simp
    from heap_ok_block [OF assms(1) this] assms(3) show ?thesis by simp
  qed
next
  fix x y k m
  assume h: "blocks w1 x = Some k" "blocks w1 y = Some m" "x < y"
  show "x + max k 1 \<le> y"
  proof (cases "y = brk w")
    case True
    with h have "x \<noteq> brk w" by simp
    with h assms(2) have "blocks w x = Some k" by simp
    from heap_ok_block [OF assms(1) this] True show ?thesis by simp
  next
    case False
    with h assms(2) have y: "blocks w y = Some m" by simp
    from heap_ok_block [OF assms(1) y] h have "x \<noteq> brk w" by simp
    with h assms(2) have "blocks w x = Some k" by simp
    from heap_ok_disjoint [OF assms(1) this y] h show ?thesis by simp
  qed
qed

lemma in_block_new_block:
  assumes "in_block w b x" "blocks w1 = (blocks w)(q \<mapsto> n)" "blocks w q = None"
  shows "in_block w1 b x"
  using assms by (auto simp: in_block_def)

lemma pool_inv_fresh:
  assumes inv: "pool_inv h a d w" and i: "i < length d" "d ! i = NULL"
    and c: "calloc_ab n w = (q, w1)" "q \<noteq> NULL"
  shows "pool_inv h a (d[i := q]) (w1\<lparr>dirs := (dirs w1)(pool a \<mapsto> d[i := q])\<rparr>)"
proof (rule pool_invI)
  let ?w = "w1\<lparr>dirs := (dirs w1)(pool a \<mapsto> d[i := q])\<rparr>"
  note f = calloc_ab_Inr [OF c]
  note D = pool_invD [OF inv]
  have none: "blocks w q = None"
    using D(1) f(1) by (simp add: blocks_brk_None)
  have ok1: "heap_ok w1"
    using heap_ok_new_block [OF D(1)] f by simp
  then show "heap_ok ?w"
    by (rule heap_ok_same) simp_all
  have qh: "q \<noteq> h" "q \<noteq> pool a"
    using D(9,10) none by auto
  have old: "slot_ok h a ?w p" if "slot_ok h a w p" for p
    using that
  proof (rule slot_ok_mono)
    show "in_block ?w b p" if "in_block w b p" for b
      using in_block_new_block [OF that f(5) none] by (simp add: in_block_def)
  qed (simp add: f)
  have new: "slot_ok h a ?w q"
    unfolding slot_ok_def using qh by (auto simp: f in_block_def)
  have below: "d ! j \<noteq> q" if "j < length d" for j
  proof (cases "d ! j = NULL")
    case True
    with c(2) show ?thesis by simp
  next
    case False
    from slot_below_brk [OF D(1) D(11) [OF that] False] f(1) show ?thesis by simp
  qed
  show "slot_ok h a ?w (d[i := q] ! k)" if "k < length (d[i := q])" for k
    using that old [OF D(11)] new by (cases "k = i") simp_all
  show "d[i := q] ! k \<noteq> d[i := q] ! j"
    if "k < length (d[i := q])" "j < length (d[i := q])" "k \<noteq> j" "d[i := q] ! k \<noteq> NULL"
    for k j
  proof -
    consider "k = i" | "j = i" "k \<noteq> i" | "k \<noteq> i" "j \<noteq> i" by blast
    then show ?thesis
    proof cases
      case 1
      with that below [of j] show ?thesis by (simp add: nth_list_update)
    next
      case 2
      with that below [of k] show ?thesis by (simp add: nth_list_update)
    next
      case 3
      with that D(12) [of k j] show ?thesis by simp
    qed
  qed
qed (use pool_invD [OF inv] calloc_ab_Inr [OF c] blocks_brk_None [of w] in auto)

lemma pool_inv_alloc_scan:
  assumes "pool_inv h a d w" "alloc_scan a i w = Inr (r, w')"
  shows "\<exists>d'. pool_inv h a d' w'"
  using assms
proof (induction "maximum_objects a - i" arbitrary: i w d rule: less_induct)
  case less
  note D = pool_invD [OF less.prems(1)]
  from less.prems(2) show ?case
  proof (cases rule: alloc_scan_step)
    case stop
    with less.prems show ?thesis by blast
  next
    case (fresh q w1 w2)
    from fresh(2) D(3) have i: "i < length d" "d ! i = NULL"
      by (auto simp: read_pool_Inr)
    from fresh(5) D(3) calloc_ab_Inr(3) [OF fresh(3,4)]
    have w2: "w2 = w1\<lparr>dirs := (dirs w1)(pool a \<mapsto> d[i := q])\<rparr>"
      by (auto simp: write_pool_Inr)
    from pool_inv_fresh [OF less.prems(1) i fresh(3,4)] w2
    have inv2: "pool_inv h a (d[i := q]) w2" by simp
    from fresh(6) obtain e where "entries w2 q = Some e"
      "w' = w2\<lparr>entries := (entries w2)(q \<mapsto>
          e\<lparr>data := replicate (object_size a) 0, in_use := IN_USE\<rparr>)\<rparr>"
      by (auto simp: take_entry_Inr)
    with pool_inv_entry_update [OF inv2, of q] show ?thesis
      by auto
  next
    case (nomem w1 w2)
    from nomem(2) D(3) have i: "i < length d" "d ! i = NULL"
      by (auto simp: read_pool_Inr)
    from D(1) have b: "0 < brk w" by (simp add: heap_ok_def)
    note f = calloc_ab_NULL [OF nomem(3) b]
    from nomem(4) D(3) f(2) i have w2: "w2 = w1"
      by (auto simp: write_pool_Inr list_update_same_conv [THEN iffD2] fun_upd_idem)
    have "pool_inv h a d (op_error_handler ''Could not allocate desired object.'' w2)"
      using less.prems(1) by (rule pool_inv_fields) (simp_all add: w2 f)
    moreover have "maximum_objects a - (i + 1) < maximum_objects a - i"
      using nomem(1) by simp
    ultimately show ?thesis
      using less.hyps nomem(5) by blast
  next
    case (reuse p)
    from reuse(5) obtain e where "entries w p = Some e"
      "w' = w\<lparr>entries := (entries w)(p \<mapsto>
          e\<lparr>data := replicate (object_size a) 0, in_use := IN_USE\<rparr>)\<rparr>"
      by (auto simp: take_entry_Inr)
    with pool_inv_entry_update [OF less.prems(1), of p] show ?thesis
      by auto
  next
    case (skip p)
    have "maximum_objects a - (i + 1) < maximum_objects a - i"
      using skip(1) by simp
    then show ?thesis
      using less.hyps less.prems(1) skip(5) by blast
  qed
qed

lemma heap_ok_remove:
  assumes "heap_ok w" "blocks w1 = (blocks w)(p := None)" "brk w1 = brk w"
  shows "heap_ok w1"
proof (rule heap_okI)
  show "0 < brk w1" using assms by (simp add: heap_ok_def)
next
  fix x n assume "blocks w1 x = Some n"
  with assms(2) have "blocks w x = Some n" by (auto split: if_splits)
  from heap_ok_block [OF assms(1) this] assms(3) show "0 < x \<and> x + max n 1 \<le> brk w1" by simp
next
  fix x y n m assume "blocks w1 x = Some n" "blocks w1 y = Some m" "x < y"
  with assms(2) have "blocks w x = Some n" "blocks w y = Some m" by (auto split: if_splits)
  from heap_ok_disjoint [OF assms(1) this \<open>x < y\<close>] show "x + max n 1 \<le> y" .
qed

lemma realloc_dir_closed:
  assumes r: "realloc_dir p n w = Inr (q, w1)" "q \<noteq> NULL"
    and p: "p \<noteq> NULL" "dirs w p = Some d" "blocks w p = Some k" "blocks w (brk w) = None"
  shows "q = brk w"
    "handles w1 = outside p k (handles w)"
    "dirs w1 = (outside p k (dirs w))(q \<mapsto> take n d @ replicate (n - length d) (garbage w))"
    "entries w1 = outside p k (entries w)"
    "blocks w1 = ((blocks w)(q \<mapsto> sizeof_ptr * n))(p := None)"
    "brk w1 = brk w + max (sizeof_ptr * n) 1"
    "freed w1 = freed w" "errlog w1 = errlog w" "garbage w1 = garbage w"
proof -
  obtain q' w' where a: "heap_alloc (sizeof_ptr * n) w = (q', w')"
    by (cases "heap_alloc (sizeof_ptr * n) w")
  with r p have q': "q' \<noteq> NULL"
    by (auto simp: realloc_dir_def Let_def split: if_splits sum.splits)
  note f = heap_alloc_ok [OF a q']
  from p(4) f(1) p(3) have pq: "p \<noteq> q'" by auto
  with f(5) p(3) have bp: "blocks w' p = Some k" by simp
  with p(1) have fr: "heap_free p w' = Inr (w'\<lparr>handles := outside p k (handles w'),
      dirs := outside p k (dirs w'), entries := outside p k (entries w'),
      blocks := (blocks w')(p := None), freed := freed w' @ [p]\<rparr>)"
    by (simp add: heap_free_def)
  from r a q' p fr have q: "q = q'"
    and w1: "w1 = (w'\<lparr>handles := outside p k (handles w'),
      dirs := outside p k (dirs w'), entries := outside p k (entries w'),
      blocks := (blocks w')(p := None), freed := freed w' @ [p]\<rparr>)
       \<lparr>dirs := (outside p k (dirs w'))(q' \<mapsto> take n d @ replicate (n - length d) (garbage w)),
        freed := freed w\<rparr>"
    by (auto simp: realloc_dir_def Let_def split: if_splits sum.splits)
  show "q = brk w" using q f(1) by simp
  show "handles w1 = outside p k (handles w)" by (simp add: w1 f)
  show "dirs w1 = (outside p k (dirs w))(q \<mapsto> take n d @ replicate (n - length d) (garbage w))"
    by (simp add: w1 f q)
  show "entries w1 = outside p k (entries w)" by (simp add: w1 f)
  show "blocks w1 = ((blocks w)(q \<mapsto> sizeof_ptr * n))(p := None)" by (simp add: w1 f q)
  show "brk w1 = brk w + max (sizeof_ptr * n) 1" by (simp add: w1 f)
  show "freed w1 = freed w" by (simp add: w1)
  show "errlog w1 = errlog w" by (simp add: w1 f)
  show "garbage w1 = garbage w" by (simp add: w1 f)
qed

definition entry_size :: "op_allocator \<Rightarrow> nat" where
  "entry_size a = sizeof_ab_t + object_size a"

lemma fill_chunks_closed:
  assumes f: "fill_chunks h off n w = Inr (True, w1)"
    and a: "handles w h = Some a" "dirs w (pool a) = Some d"
  shows "brk w \<noteq> NULL" "handles w1 = handles w"
    "dirs w1 = (dirs w)(pool a \<mapsto>
       take off d @ map (\<lambda>j. brk w + j * entry_size a) [0..<n] @ drop (off + n) d)"
    "entries w1 = chunk_entries (brk w) n (entry_size a) (object_size a) (entries w)"
    "blocks w1 = (blocks w)(brk w \<mapsto> n * (n * entry_size a))"
    "brk w1 = brk w + max (n * (n * entry_size a)) 1"
    "freed w1 = freed w" "errlog w1 = errlog w" "0 < n \<longrightarrow> off + n \<le> length d"
proof -
  obtain c w' where c: "heap_alloc (n * (n * entry_size a)) w = (c, w')"
    by (cases "heap_alloc (n * (n * entry_size a)) w")
  with f a have cn: "c \<noteq> NULL"
    by (auto simp: fill_chunks_def Let_def calloc_def entry_size_def split: if_splits)
  note al = heap_alloc_ok [OF c cn]
  define w2 where "w2 = w'\<lparr>entries := chunk_entries c n (entry_size a) (object_size a)
    (entries w')\<rparr>"
  from f a c cn have fl: "fill_loop a off n c (entry_size a) 0 w2 = Inr w1"
    by (auto simp: fill_chunks_def Let_def calloc_def entry_size_def w2_def
        split: if_splits sum.splits)
  have d2: "dirs w2 (pool a) = Some d"
    by (simp add: w2_def al a)
  from fill_loop_closed [OF fl d2] have n: "0 < n \<longrightarrow> off + n \<le> length d"
    and w1: "w1 = w2\<lparr>dirs := (dirs w2)(pool a \<mapsto>
        take (off + 0) d @ map (\<lambda>j. c + j * entry_size a) [0..<n] @ drop (off + n) d)\<rparr>"
    by simp_all
  show "brk w \<noteq> NULL" using al(1) cn by simp
  show "handles w1 = handles w" by (simp add: w1 w2_def al)
  show "dirs w1 = (dirs w)(pool a \<mapsto>
       take off d @ map (\<lambda>j. brk w + j * entry_size a) [0..<n] @ drop (off + n) d)"
    by (simp add: w1 w2_def al)
  show "entries w1 = chunk_entries (brk w) n (entry_size a) (object_size a) (entries w)"
    by (simp add: w1 w2_def al)
  show "blocks w1 = (blocks w)(brk w \<mapsto> n * (n * entry_size a))"
    by (simp add: w1 w2_def al)
  show "brk w1 = brk w + max (n * (n * entry_size a)) 1"
    by (simp add: w1 w2_def al)
  show "freed w1 = freed w" by (simp add: w1 w2_def al)
  show "errlog w1 = errlog w" by (simp add: w1 w2_def al)
  show "0 < n \<longrightarrow> off + n \<le> length d" by (rule n)
qed

definition grown_struct :: "op_allocator \<Rightarrow> world \<Rightarrow> op_allocator" where
  "grown_struct a w = a\<lparr>pool := brk w, maximum_objects := new_size a\<rparr>"

definition chunk_base :: "op_allocator \<Rightarrow> world \<Rightarrow> addr" where
  "chunk_base a w = brk w + max (sizeof_ptr * new_size a) 1"

lemma grow_pool_closed:
  assumes g: "grow_pool h w = Inr (True, w')"
    and a: "handles w h = Some a" "dirs w (pool a) = Some d" "length d = maximum_objects a"
      "pool a \<noteq> NULL" "blocks w (pool a) = Some k" "blocks w (brk w) = None"
  shows
    "handles w' = (outside (pool a) k (handles w))(h \<mapsto> grown_struct a w)"
    "dirs w' = (outside (pool a) k (dirs w))(brk w \<mapsto> d @
       (if use_chunks a
        then map (\<lambda>j. chunk_base a w + j * entry_size a) [0..<grow_size a]
        else replicate (grow_size a) NULL))"
    "entries w' =
       (if use_chunks a
        then chunk_entries (chunk_base a w) (grow_size a) (entry_size a) (object_size a)
               (outside (pool a) k (entries w))
        else outside (pool a) k (entries w))"
    "blocks w' =
       (if use_chunks a
        then (((blocks w)(brk w \<mapsto> sizeof_ptr * new_size a))(pool a := None))
               (chunk_base a w \<mapsto> grow_size a * (grow_size a * entry_size a))
        else ((blocks w)(brk w \<mapsto> sizeof_ptr * new_size a))(pool a := None))"
    "brk w' =
       (if use_chunks a
        then chunk_base a w + max (grow_size a * (grow_size a * entry_size a)) 1
        else chunk_base a w)"
    "freed w' = freed w"
proof -
  have len: "new_size a - length d = grow_size a" "take (new_size a) d = d"
    "maximum_objects a \<le> new_size a"
    using a(3) by (simp_all add: new_size_def)
  have main: "handles w' = (outside (pool a) k (handles w))(h \<mapsto> grown_struct a w)
    \<and> dirs w' = (outside (pool a) k (dirs w))(brk w \<mapsto> d @
       (if use_chunks a
        then map (\<lambda>j. chunk_base a w + j * entry_size a) [0..<grow_size a]
        else replicate (grow_size a) NULL))
    \<and> entries w' =
       (if use_chunks a
        then chunk_entries (chunk_base a w) (grow_size a) (entry_size a) (object_size a)
               (outside (pool a) k (entries w))
        else outside (pool a) k (entries w))
    \<and> blocks w' =
       (if use_chunks a
        then (((blocks w)(brk w \<mapsto> sizeof_ptr * new_size a))(pool a := None))
               (chunk_base a w \<mapsto> grow_size a * (grow_size a * entry_size a))
        else ((blocks w)(brk w \<mapsto> sizeof_ptr * new_size a))(pool a := None))
    \<and> brk w' =
       (if use_chunks a
        then chunk_base a w + max (grow_size a * (grow_size a * entry_size a)) 1
        else chunk_base a w)
    \<and> freed w' = freed w"
    using g a(1)
  proof (cases rule: grow_pool_step)
    case (realloc_failed w1)
    then show ?thesis by simp
  next
    case (individual p w1 w3)
    note r = realloc_dir_closed [OF individual(1,2) a(4) a(2) a(5) a(6)]
    let ?w2 = "w1\<lparr>handles := (handles w1)(h \<mapsto> a\<lparr>pool := p\<rparr>)\<rparr>"
    have d2: "dirs ?w2 (pool (a\<lparr>pool := p\<rparr>)) =
        Some (d @ replicate (grow_size a) (garbage w))"
      by (simp add: r len)
    from null_loop_closed [OF individual(3) d2 len(3)]
    have w3: "w3 = ?w2\<lparr>dirs := (dirs ?w2)(p \<mapsto> d @ replicate (grow_size a) NULL)\<rparr>"
      using a(3) len by simp
    show ?thesis
      using individual(4)
      by (simp add: individual(6) w3 r grown_struct_def chunk_base_def)
  next
    case (chunked p w1 w3)
    note r = realloc_dir_closed [OF chunked(1,2) a(4) a(2) a(5) a(6)]
    let ?w2 = "w1\<lparr>handles := (handles w1)(h \<mapsto> a\<lparr>pool := p\<rparr>)\<rparr>"
    have d2: "dirs ?w2 (pool (a\<lparr>pool := p\<rparr>)) =
        Some (d @ replicate (grow_size a) (garbage w))"
      by (simp add: r len)
    from null_loop_closed [OF chunked(3) d2 len(3)]
    have w3: "w3 = ?w2\<lparr>dirs := (dirs ?w2)(p \<mapsto> d @ replicate (grow_size a) NULL)\<rparr>"
      using a(3) len by simp
    let ?a' = "a\<lparr>pool := p, maximum_objects := new_size a\<rparr>"
    let ?w4 = "w3\<lparr>handles := (handles w3)(h \<mapsto> ?a')\<rparr>"
    from g chunked have ok: "fill_chunks h (maximum_objects a) (grow_size a) ?w4 = Inr (True, w')"
      by simp
    have h4: "handles ?w4 h = Some ?a'" by simp
    have d4: "dirs ?w4 (pool ?a') = Some (d @ replicate (grow_size a) NULL)"
      by (simp add: w3)
    note fc = fill_chunks_closed [OF ok h4 d4]
    have b4: "brk ?w4 = chunk_base a w"
      by (simp add: w3 r chunk_base_def)
    show ?thesis
      using chunked(4) a(3)
      by (simp add: fc w3 r grown_struct_def entry_size_def chunk_base_def)
  qed
  show "handles w' = (outside (pool a) k (handles w))(h \<mapsto> grown_struct a w)"
    "dirs w' = (outside (pool a) k (dirs w))(brk w \<mapsto> d @
       (if use_chunks a
        then map (\<lambda>j. chunk_base a w + j * entry_size a) [0..<grow_size a]
        else replicate (grow_size a) NULL))"
    "entries w' =
       (if use_chunks a
        then chunk_entries (chunk_base a w) (grow_size a) (entry_size a) (object_size a)
               (outside (pool a) k (entries w))
        else outside (pool a) k (entries w))"
    "blocks w' =
       (if use_chunks a
        then (((blocks w)(brk w \<mapsto> sizeof_ptr * new_size a))(pool a := None))
               (chunk_base a w \<mapsto> grow_size a * (grow_size a * entry_size a))
        else ((blocks w)(brk w \<mapsto> sizeof_ptr * new_size a))(pool a := None))"
    "brk w' =
       (if use_chunks a
        then chunk_base a w + max (grow_size a * (grow_size a * entry_size a)) 1
        else chunk_base a w)"
    "freed w' = freed w"
    using main by blast+
qed

lemma entry_size_pos [simp]: "0 < entry_size a"
  by (simp add: entry_size_def sizeof_ab_t_def)

lemma chunk_entries_inside:
  assumes "j < n" "0 < es"
  shows "chunk_entries c n es osz m (c + j * es) = Some (zero_ab osz)"
  using assms by (simp add: chunk_entries_def)

lemma chunk_entries_below: "x < c \<Longrightarrow> chunk_entries c n es osz m x = m x"
  by (simp add: chunk_entries_def)

lemma chunk_entries_not_None: "m x \<noteq> None \<Longrightarrow> chunk_entries c n es osz m x \<noteq> None"
  by (simp add: chunk_entries_def)

lemma pool_inv_grow:
  assumes inv: "pool_inv h a d w" and g: "grow_pool h w = Inr (True, w')"
  shows "pool_inv h (grown_struct a w)
           (d @ (if use_chunks a
                 then map (\<lambda>j. chunk_base a w + j * entry_size a) [0..<grow_size a]
                 else replicate (grow_size a) NULL)) w'"
proof -
  note D = pool_invD [OF inv]
  from D(10) obtain k where k: "blocks w (pool a) = Some k" by blast
  from D(9) obtain kh where kh: "blocks w h = Some kh" by blast
  have qn: "blocks w (brk w) = None" using D(1) by (rule blocks_brk_None)
  note G = grow_pool_closed [OF g D(2,3,4,7) k qn]
  let ?q = "brk w" and ?c = "chunk_base a w" and ?gs = "grow_size a" and ?es = "entry_size a"
  let ?suffix = "if use_chunks a then map (\<lambda>j. ?c + j * ?es) [0..<?gs] else replicate ?gs NULL"
  let ?d = "d @ ?suffix"
  have brk0: "0 < brk w" using D(1) by (simp add: heap_ok_def)
  have cq: "?q < ?c" by (simp add: chunk_base_def)
  have hq: "h < ?q" "pool a < ?q"
    using heap_ok_block [OF D(1) kh] heap_ok_block [OF D(1) k] by (simp_all add: max_def split: if_splits)
  have sfx_len: "length ?suffix = ?gs" by simp
  have sfx_nth: "?d ! i = (if use_chunks a then ?c + (i - length d) * ?es else NULL)"
    if "length d \<le> i" "i < length ?d" for i
    using that by (auto simp: nth_append)
  text \<open>the heap\<close>
  let ?w1 = "w\<lparr>blocks := (blocks w)(?q \<mapsto> sizeof_ptr * new_size a), brk := ?c\<rparr>"
  have ok1: "heap_ok ?w1"
    by (rule heap_ok_new_block [OF D(1)]) (simp_all add: chunk_base_def)
  let ?w2 = "?w1\<lparr>blocks := (blocks ?w1)(pool a := None)\<rparr>"
  have ok2: "heap_ok ?w2"
    by (rule heap_ok_remove [OF ok1]) simp_all
  have ok: "heap_ok w'"
  proof (cases "use_chunks a")
    case False
    show ?thesis
      by (rule heap_ok_same [OF ok2]) (simp_all add: G False)
  next
    case True
    have "heap_ok (?w2\<lparr>blocks := (blocks ?w2)(brk ?w2 \<mapsto> ?gs * (?gs * ?es)),
        brk := brk ?w2 + max (?gs * (?gs * ?es)) 1\<rparr>)"
      by (rule heap_ok_new_block [OF ok2]) simp_all
    then show ?thesis
      by (rule heap_ok_same) (simp_all add: G True)
  qed
  text \<open>blocks that stay\<close>
  have keep: "blocks w' b = blocks w b" if "b < ?q" "b \<noteq> pool a" for b
    using that cq by (simp add: G)
  have keep_in: "in_block w' b x" if "in_block w b x" "b \<noteq> pool a" for b x
  proof -
    from in_block_below_brk [OF D(1) that(1)] have "b < ?q" by simp
    from keep [OF this that(2)] that(1) show ?thesis by (simp add: in_block_def)
  qed
  have old: "slot_ok h (grown_struct a w) w' p" if s: "slot_ok h a w p" for p
  proof (cases "p = NULL")
    case True
    then show ?thesis by (simp add: slot_ok_def)
  next
    case False
    with s obtain b where b: "entries w p \<noteq> None" "in_block w b p" "b \<noteq> h" "b \<noteq> pool a"
      by (auto simp: slot_ok_def)
    from outside_other_block [OF D(1) k b(2,4), of "entries w"] b(1)
    have "outside (pool a) k (entries w) p \<noteq> None" by simp
    then have e: "entries w' p \<noteq> None"
      using chunk_entries_not_None [of "outside (pool a) k (entries w)" p]
      by (auto simp: G)
    from in_block_below_brk [OF D(1) b(2)] have "b \<noteq> ?q" by simp
    with e keep_in [OF b(2,4)] b(3) show ?thesis
      by (auto simp: slot_ok_def grown_struct_def)
  qed
  have new: "slot_ok h (grown_struct a w) w' (?c + j * ?es)" if "use_chunks a" "j < ?gs" for j
  proof -
    have "entries w' (?c + j * ?es) = Some (zero_ab (object_size a))"
      using that by (simp add: G chunk_entries_inside)
    moreover have "j * ?es < ?gs * (?gs * ?es)"
    proof -
      have "j * ?es < ?gs * ?es" using that by simp
      also have "\<dots> \<le> ?gs * (?gs * ?es)" using that by simp
      finally show ?thesis .
    qed
    then have "in_block w' ?c (?c + j * ?es)"
      using that by (simp add: in_block_def G less_max_iff_disj)
    moreover have "?c \<noteq> h" "?c \<noteq> ?q" using hq cq by simp_all
    ultimately show ?thesis
      by (auto simp: slot_ok_def grown_struct_def)
  qed
  have old_small: "d ! i < ?q" if "i < length d" "d ! i \<noteq> NULL" for i
    using slot_below_brk [OF D(1) D(11) [OF that(1)] that(2)] .
  show ?thesis
  proof (rule pool_invI)
    show "heap_ok w'" by (rule ok)
    show "handles w' h = Some (grown_struct a w)" by (simp add: G)
    show "dirs w' (pool (grown_struct a w)) = Some ?d"
      by (simp add: G grown_struct_def)
    show "length ?d = maximum_objects (grown_struct a w)"
      using D(4) by (simp add: grown_struct_def new_size_def)
    show "initialized (grown_struct a w)" using D(5) by (simp add: grown_struct_def)
    show "h \<noteq> NULL" by (rule D(6))
    show "pool (grown_struct a w) \<noteq> NULL" using brk0 by (simp add: grown_struct_def)
    show "pool (grown_struct a w) \<noteq> h" using hq by (simp add: grown_struct_def)
    show "blocks w' h \<noteq> None"
      using keep [OF hq(1) D(8) [symmetric]] kh by simp
    show "blocks w' (pool (grown_struct a w)) \<noteq> None"
      using hq cq by (simp add: G grown_struct_def)
    show "slot_ok h (grown_struct a w) w' (?d ! i)" if "i < length ?d" for i
    proof (cases "i < length d")
      case True
      with old [OF D(11) [OF True]] show ?thesis by (simp add: nth_append)
    next
      case False
      then have i: "length d \<le> i" by simp
      show ?thesis
      proof (cases "use_chunks a")
        case uc: True
        from that have "i - length d < ?gs" using i uc by simp
        from new [OF uc this] sfx_nth [OF i that] uc show ?thesis by simp
      next
        case uc: False
        with sfx_nth [OF i that] show ?thesis by (simp add: slot_ok_def)
      qed
    qed
    show "?d ! i \<noteq> ?d ! j"
      if ij: "i < length ?d" "j < length ?d" "i \<noteq> j" "?d ! i \<noteq> NULL" for i j
    proof (cases "i < length d")
      case i: True
      then have di: "?d ! i = d ! i" by (simp add: nth_append)
      show ?thesis
      proof (cases "j < length d")
        case True
        with D(12) [OF i True ij(3)] ij(4) di show ?thesis by (simp add: nth_append)
      next
        case False
        then have "length d \<le> j" by simp
        from sfx_nth [OF this ij(2)] old_small [OF i] ij(4) di cq show ?thesis
          by (auto split: if_splits)
      qed
    next
      case False
      then have i: "length d \<le> i" by simp
      from sfx_nth [OF i ij(1)] ij(4) have uc: "use_chunks a"
        and di: "?d ! i = ?c + (i - length d) * ?es"
        by (auto split: if_splits)
      show ?thesis
      proof (cases "j < length d")
        case True
        then have dj: "?d ! j = d ! j" by (simp add: nth_append)
        show ?thesis
        proof (cases "d ! j = NULL")
          case True
          with ij(4) dj show ?thesis by simp
        next
          case False
          from old_small [OF \<open>j < length d\<close> False] cq di dj show ?thesis by simp
        qed
      next
        case False
        then have j: "length d \<le> j" by simp
        from sfx_nth [OF j ij(2)] uc have dj: "?d ! j = ?c + (j - length d) * ?es" by simp
        from i j ij(3) have "i - length d \<noteq> j - length d" by simp
        with di dj show ?thesis by simp
      qed
    qed
  qed
qed

definition pool_ok :: "addr \<Rightarrow> world \<Rightarrow> bool" where
  "pool_ok h w \<longleftrightarrow> (\<exists>a d. pool_inv h a d w)"

lemma pool_ok_allocate_retry:
  assumes "pool_ok h w" "allocate_retry h w = Inr (r, w')" "r \<noteq> NULL"
  shows "pool_ok h w'"
  using assms
proof (induction w rule: allocate_retry_induct [where h = h])
  case (round w)
  from round.prems(1) obtain a d where inv: "pool_inv h a d w"
    by (auto simp: pool_ok_def)
  note D = pool_invD [OF inv]
  from round.prems(2) show ?case
  proof (cases rule: allocate_retry_step)
    case (found a')
    with D(2) have "alloc_scan a 0 w = Inr (r, w')" by simp
    from pool_inv_alloc_scan [OF inv this] show ?thesis
      by (auto simp: pool_ok_def)
  next
    case (failed a' w1 w2)
    with round.prems show ?thesis by simp
  next
    case (retry a' w1 w2)
    with D(2) have sc: "alloc_scan a 0 w = Inr (NULL, w1)" by simp
    from pool_inv_alloc_scan [OF inv sc] obtain d1 where "pool_inv h a d1 w1" ..
    from pool_inv_grow [OF this retry(3)] have "pool_ok h w2"
      by (auto simp: pool_ok_def)
    from round.IH [OF retry(1,2,3) this retry(4) round.prems(3)] show ?thesis .
  qed
qed

lemma pool_ok_allocate:
  assumes "pool_ok h w" "op_ll_allocate_object h w = Inr (p, w')" "p \<noteq> NULL"
  shows "pool_ok h w'"
proof -
  from assms(2,3) have "allocate_retry h w = Inr (p, w')"
    by (auto simp: op_ll_allocate_object_def Let_def
        split: if_splits option.splits sum.splits prod.splits)
  from pool_ok_allocate_retry [OF assms(1) this assms(3)] show ?thesis .
qed

lemma dealloc_scan_step [consumes 1, case_names stop hit skip]:
  assumes "dealloc_scan a object i w = Inr w'"
  obtains
    "\<not> i < maximum_objects a" "w' = w"
  | p where "i < maximum_objects a" "read_pool a i w = Inr p" "p \<noteq> NULL"
      "data_addr p = object" "write_in_use p NOT_IN_USE w = Inr w'"
  | p where "i < maximum_objects a" "read_pool a i w = Inr p"
      "data_addr p \<noteq> object" "dealloc_scan a object (i + 1) w = Inr w'"
proof (cases "i < maximum_objects a")
  case False
  with assms that(1) show ?thesis
    by (subst (asm) dealloc_scan.simps) simp
next
  case True
  with assms obtain p where p: "read_pool a i w = Inr p"
    by (subst (asm) dealloc_scan.simps) (auto split: sum.splits)
  show ?thesis
  proof (cases "data_addr p = object")
    case eq: True
    with assms True p have wr: "write_in_use p NOT_IN_USE w = Inr w'"
      by (subst (asm) dealloc_scan.simps) simp
    then have "p \<noteq> NULL"
      by (simp add: write_in_use_Inr)
    with True p eq wr that(2) show ?thesis by simp
  next
    case False
    with assms True p that(3) show ?thesis
      by (subst (asm) dealloc_scan.simps) simp
  qed
qed

lemma pool_inv_dealloc_scan:
  assumes "pool_inv h a d w" "dealloc_scan a object i w = Inr w'"
  shows "pool_inv h a d w'"
  using assms
proof (induction "maximum_objects a - i" arbitrary: i rule: less_induct)
  case less
  from less.prems(2) show ?case
  proof (cases rule: dealloc_scan_step)
    case stop
    with less.prems show ?thesis by simp
  next
    case (hit p)
    from hit(5) obtain e where "entries w p = Some e"
      "w' = w\<lparr>entries := (entries w)(p \<mapsto> e\<lparr>in_use := NOT_IN_USE\<rparr>)\<rparr>"
      by (auto simp: write_in_use_Inr)
    with pool_inv_entry_update [OF less.prems(1), of p] show ?thesis by auto
  next
    case (skip p)
    have "maximum_objects a - (i + 1) < maximum_objects a - i"
      using skip(1) by simp
    from less.hyps [OF this less.prems(1) skip(4)] show ?thesis .
  qed
qed

lemma pool_ok_deallocate:
  assumes "pool_ok h w" "op_ll_deallocate_object h object w = Inr w'"
  shows "pool_ok h w'"
proof -
  from assms(1) obtain a d where inv: "pool_inv h a d w"
    by (auto simp: pool_ok_def)
  note D = pool_invD [OF inv]
  show ?thesis
  proof (cases "object = NULL")
    case True
    with assms(2) have "w' = op_error_handler ''Invalid allocator or object while deallocating.'' w"
      by (simp add: op_ll_deallocate_object_def)
    with pool_inv_fields [OF inv, of w'] show ?thesis
      by (auto simp: pool_ok_def)
  next
    case False
    with assms(2) D(2,6) have "dealloc_scan a object 0 w = Inr w'"
      by (simp add: op_ll_deallocate_object_def)
    from pool_inv_dealloc_scan [OF inv this] show ?thesis
      by (auto simp: pool_ok_def)
  qed
qed

definition first_struct :: "nat \<Rightarrow> nat \<Rightarrow> op_ll_allocator_mode \<Rightarrow> world \<Rightarrow> op_allocator" where
  "first_struct osz c mode w0 =
     \<lparr>object_size = osz, initial_count = c, maximum_objects = c,
      use_chunks = mode_chunks mode, use_linear = mode_linear mode, initialized = True,
      pool = brk w0 + sizeof_op_allocator\<rparr>"

definition first_chunk :: "nat \<Rightarrow> world \<Rightarrow> addr" where
  "first_chunk c w0 = brk w0 + sizeof_op_allocator + max (sizeof_ptr * c) 1"

lemma initialize_closed:
  assumes i: "op_ll_initialize_allocator osz c mode w0 = Inr (h, w)" "h \<noteq> NULL"
  shows "h = brk w0"
    "handles w = (handles w0)(h \<mapsto> first_struct osz c mode w0)"
    "dirs w = (dirs w0)(brk w0 + sizeof_op_allocator \<mapsto>
       (if mode_chunks mode
        then map (\<lambda>j. first_chunk c w0 + j * (sizeof_ab_t + osz)) [0..<c]
        else replicate c NULL))"
    "entries w =
       (if mode_chunks mode
        then chunk_entries (first_chunk c w0) c (sizeof_ab_t + osz) osz (entries w0)
        else entries w0)"
    "blocks w =
       (if mode_chunks mode
        then (blocks w0)(h \<mapsto> sizeof_op_allocator,
               brk w0 + sizeof_op_allocator \<mapsto> sizeof_ptr * c,
               first_chunk c w0 \<mapsto> c * (c * (sizeof_ab_t + osz)))
        else (blocks w0)(h \<mapsto> sizeof_op_allocator,
               brk w0 + sizeof_op_allocator \<mapsto> sizeof_ptr * c))"
    "brk w =
       (if mode_chunks mode
        then first_chunk c w0 + max (c * (c * (sizeof_ab_t + osz))) 1
        else first_chunk c w0)"
    "freed w = freed w0"
proof -
  obtain rv w1 where a1: "heap_alloc (1 * sizeof_op_allocator) w0 = (rv, w1)"
    by (cases "heap_alloc (1 * sizeof_op_allocator) w0")
  with i have rv: "rv \<noteq> NULL" "rv = h"
    by (auto simp: op_ll_initialize_allocator_def calloc_def Let_def
        split: if_splits prod.splits sum.splits)
  note f1 = heap_alloc_ok [OF a1 rv(1)]
  have hb: "h = brk w0" using f1(1) rv(2) by simp
  obtain p w2 where a2: "heap_alloc (c * sizeof_ptr) w1 = (p, w2)"
    by (cases "heap_alloc (c * sizeof_ptr) w1")
  with i a1 rv have p: "p \<noteq> NULL"
    by (auto simp: op_ll_initialize_allocator_def calloc_def Let_def
        split: if_splits prod.splits sum.splits)
  note f2 = heap_alloc_ok [OF a2 p]
  let ?a = "first_struct osz c mode w0"
  have pa: "p = brk w0 + sizeof_op_allocator" "pool ?a = p"
    by (simp_all add: f2 f1 first_struct_def sizeof_op_allocator_def)
  let ?w4 = "w2\<lparr>handles := (handles w2)(rv \<mapsto> ?a), dirs := (dirs w2)(p \<mapsto> replicate c NULL)\<rparr>"
  have main: "handles w = (handles w0)(h \<mapsto> ?a)
    \<and> dirs w = (dirs w0)(brk w0 + sizeof_op_allocator \<mapsto>
       (if mode_chunks mode
        then map (\<lambda>j. first_chunk c w0 + j * (sizeof_ab_t + osz)) [0..<c]
        else replicate c NULL))
    \<and> entries w =
       (if mode_chunks mode
        then chunk_entries (first_chunk c w0) c (sizeof_ab_t + osz) osz (entries w0)
        else entries w0)
    \<and> blocks w =
       (if mode_chunks mode
        then (blocks w0)(h \<mapsto> sizeof_op_allocator,
               brk w0 + sizeof_op_allocator \<mapsto> sizeof_ptr * c,
               first_chunk c w0 \<mapsto> c * (c * (sizeof_ab_t + osz)))
        else (blocks w0)(h \<mapsto> sizeof_op_allocator,
               brk w0 + sizeof_op_allocator \<mapsto> sizeof_ptr * c))
    \<and> brk w =
       (if mode_chunks mode
        then first_chunk c w0 + max (c * (c * (sizeof_ab_t + osz))) 1
        else first_chunk c w0)
    \<and> freed w = freed w0"
  proof (cases "mode_chunks mode")
    case False
    with i a1 a2 rv p have "w = ?w4"
      by (auto simp: op_ll_initialize_allocator_def calloc_def Let_def first_struct_def pa
          split: if_splits prod.splits sum.splits)
    with False show ?thesis
      by (simp add: f1 f2 hb first_chunk_def sizeof_op_allocator_def mult.commute)
  next
    case True
    with i a1 a2 rv p have fc: "fill_chunks rv 0 c ?w4 = Inr (True, w)"
      by (auto simp: op_ll_initialize_allocator_def calloc_def Let_def first_struct_def pa
          split: if_splits prod.splits sum.splits)
    have h4: "handles ?w4 rv = Some ?a" by simp
    have d4: "dirs ?w4 (pool ?a) = Some (replicate c NULL)" by (simp add: pa)
    note F = fill_chunks_closed [OF fc h4 d4]
    have b4: "brk ?w4 = first_chunk c w0"
      by (simp add: f1 f2 first_chunk_def sizeof_op_allocator_def mult.commute)
    have es: "entry_size ?a = sizeof_ab_t + osz"
      by (simp add: entry_size_def first_struct_def)
    show ?thesis
      using True
      by (simp add: F es f1 f2 hb mult.commute first_chunk_def)
        (simp add: first_struct_def sizeof_op_allocator_def)
  qed
  show "h = brk w0" by (rule hb)
  show "handles w = (handles w0)(h \<mapsto> first_struct osz c mode w0)"
    "dirs w = (dirs w0)(brk w0 + sizeof_op_allocator \<mapsto>
       (if mode_chunks mode
        then map (\<lambda>j. first_chunk c w0 + j * (sizeof_ab_t + osz)) [0..<c]
        else replicate c NULL))"
    "entries w =
       (if mode_chunks mode
        then chunk_entries (first_chunk c w0) c (sizeof_ab_t + osz) osz (entries w0)
        else entries w0)"
    "blocks w =
       (if mode_chunks mode
        then (blocks w0)(h \<mapsto> sizeof_op_allocator,
               brk w0 + sizeof_op_allocator \<mapsto> sizeof_ptr * c,
               first_chunk c w0 \<mapsto> c * (c * (sizeof_ab_t + osz)))
        else (blocks w0)(h \<mapsto> sizeof_op_allocator,
               brk w0 + sizeof_op_allocator \<mapsto> sizeof_ptr * c))"
    "brk w =
       (if mode_chunks mode
        then first_chunk c w0 + max (c * (c * (sizeof_ab_t + osz))) 1
        else first_chunk c w0)"
    "freed w = freed w0"
    using main by blast+
qed

lemma max_sizeof_op_allocator: "max sizeof_op_allocator 1 = sizeof_op_allocator"
  unfolding sizeof_op_allocator_def by simp

definition first_dir :: "nat \<Rightarrow> nat \<Rightarrow> op_ll_allocator_mode \<Rightarrow> world \<Rightarrow> addr list" where
  "first_dir osz c mode w0 =
     (if mode_chunks mode
      then map (\<lambda>j. first_chunk c w0 + j * (sizeof_ab_t + osz)) [0..<c]
      else replicate c NULL)"

lemma pool_inv_initialize:
  assumes ok0: "heap_ok w0"
    and i: "op_ll_initialize_allocator osz c mode w0 = Inr (h, w)" "h \<noteq> NULL"
  shows "pool_inv h (first_struct osz c mode w0) (first_dir osz c mode w0) w"
proof -
  note I = initialize_closed [OF i]
  let ?a = "first_struct osz c mode w0" and ?d = "first_dir osz c mode w0"
  let ?p = "brk w0 + sizeof_op_allocator" and ?c = "first_chunk c w0"
  let ?es = "sizeof_ab_t + osz"
  have pa: "pool ?a = ?p" by (simp add: first_struct_def)
  have lt: "h < ?p" "?p < ?c"
    by (simp_all add: I(1) first_chunk_def sizeof_op_allocator_def)
  let ?w1 = "w0\<lparr>blocks := (blocks w0)(brk w0 \<mapsto> sizeof_op_allocator), brk := ?p\<rparr>"
  have b1: "brk ?w1 = brk w0 + max sizeof_op_allocator 1"
    unfolding max_sizeof_op_allocator by simp
  have ok1: "heap_ok ?w1"
    by (rule heap_ok_new_block [OF ok0 _ b1]) simp
  let ?w2 = "?w1\<lparr>blocks := (blocks ?w1)(brk ?w1 \<mapsto> sizeof_ptr * c), brk := ?c\<rparr>"
  have ok2: "heap_ok ?w2"
    by (rule heap_ok_new_block [OF ok1]) (simp_all add: first_chunk_def)
  have ok: "heap_ok w"
  proof (cases "mode_chunks mode")
    case False
    show ?thesis
      by (rule heap_ok_same [OF ok2]) (simp_all add: I False)
  next
    case True
    have "heap_ok (?w2\<lparr>blocks := (blocks ?w2)(brk ?w2 \<mapsto> c * (c * ?es)),
        brk := brk ?w2 + max (c * (c * ?es)) 1\<rparr>)"
      by (rule heap_ok_new_block [OF ok2]) simp_all
    then show ?thesis
      by (rule heap_ok_same) (simp_all add: I True)
  qed
  have nth: "?d ! j = (if mode_chunks mode then ?c + j * ?es else NULL)" if "j < length ?d" for j
    using that by (auto simp: first_dir_def)
  have len: "length ?d = c" by (simp add: first_dir_def)
  show ?thesis
  proof (rule pool_invI)
    show "heap_ok w" by (rule ok)
    show "handles w h = Some ?a" by (simp add: I)
    show "dirs w (pool ?a) = Some ?d" by (simp add: I pa first_dir_def)
    show "length ?d = maximum_objects ?a" by (simp add: len first_struct_def)
    show "initialized ?a" by (simp add: first_struct_def)
    show "h \<noteq> NULL" by (rule i(2))
    show "pool ?a \<noteq> NULL" by (simp add: pa sizeof_op_allocator_def)
    show "pool ?a \<noteq> h" using lt by (simp add: pa)
    show "blocks w h \<noteq> None" using lt by (simp add: I)
    show "blocks w (pool ?a) \<noteq> None" using lt by (simp add: I pa)
    show "slot_ok h ?a w (?d ! j)" if "j < length ?d" for j
    proof (cases "mode_chunks mode")
      case False
      with nth [OF that] show ?thesis by (simp add: slot_ok_def)
    next
      case True
      from that have j: "j < c" by (simp add: len)
      have "entries w (?c + j * ?es) = Some (zero_ab osz)"
        using True j by (simp add: I chunk_entries_inside sizeof_ab_t_def)
      moreover have "j * ?es < c * (c * ?es)"
      proof -
        have "j * ?es < c * ?es" using j by (simp add: sizeof_ab_t_def)
        also have "\<dots> \<le> c * (c * ?es)" using j by simp
        finally show ?thesis .
      qed
      then have "in_block w ?c (?c + j * ?es)"
        using True by (simp add: in_block_def I less_max_iff_disj)
      moreover have "?c \<noteq> h" "?c \<noteq> pool ?a" using lt by (simp_all add: pa)
      ultimately show ?thesis
        using nth [OF that] True by (auto simp: slot_ok_def)
    qed
    show "?d ! j \<noteq> ?d ! k"
      if "j < length ?d" "k < length ?d" "j \<noteq> k" "?d ! j \<noteq> NULL" for j k
      using that nth [OF that(1)] nth [OF that(2)]
      by (auto simp: sizeof_ab_t_def split: if_splits)
  qed
qed

section \<open>Reusing a freed slot (C8)\<close>

lemma flag_Some: "flag w p = Some u \<longleftrightarrow> (\<exists>e. entries w p = Some e \<and> in_use e = u)"
  by (auto simp: flag_def)

lemma read_pool_dir:
  assumes "dirs w (pool a) = Some d" "pool a \<noteq> NULL" "i < length d"
  shows "read_pool a i w = Inr (d ! i)"
  using assms by (simp add: read_pool_def)

lemma dealloc_scan_hit:
  assumes dir: "dirs w (pool a) = Some d" "pool a \<noteq> NULL" "length d = maximum_objects a"
    and i: "i < length d" "k \<le> i" "\<forall>j. k \<le> j \<and> j < i \<longrightarrow> d ! j \<noteq> NULL \<and> d ! j \<noteq> d ! i"
      "d ! i \<noteq> NULL" "entries w (d ! i) = Some e"
  shows "dealloc_scan a (data_addr (d ! i)) k w =
           Inr (w\<lparr>entries := (entries w)(d ! i \<mapsto> e\<lparr>in_use := NOT_IN_USE\<rparr>)\<rparr>)"
  using i(2,3)
proof (induction "i - k" arbitrary: k)
  case 0
  then have "k = i" by simp
  with dir i show ?case
    by (subst dealloc_scan.simps) (simp add: read_pool_dir write_in_use_def)
next
  case (Suc n)
  then have lt: "k < i" by simp
  with Suc.prems have "d ! k \<noteq> NULL" "d ! k \<noteq> d ! i" by auto
  moreover have "dealloc_scan a (data_addr (d ! i)) (k + 1) w =
      Inr (w\<lparr>entries := (entries w)(d ! i \<mapsto> e\<lparr>in_use := NOT_IN_USE\<rparr>)\<rparr>)"
    using Suc.hyps(2) Suc.prems lt by (intro Suc.hyps(1)) auto
  ultimately show ?case
    using dir i(1) lt by (subst dealloc_scan.simps) (simp add: read_pool_dir)
qed

lemma alloc_scan_reuse:
  assumes dir: "dirs w (pool a) = Some d" "pool a \<noteq> NULL" "length d = maximum_objects a"
    and j: "j < length d" "k \<le> j"
      "\<forall>i. k \<le> i \<and> i < j \<longrightarrow> d ! i \<noteq> NULL \<and> flag w (d ! i) = Some IN_USE"
      "d ! j \<noteq> NULL" "entries w (d ! j) = Some e" "in_use e = NOT_IN_USE"
  shows "alloc_scan a k w =
           Inr (data_addr (d ! j), w\<lparr>entries := (entries w)(d ! j \<mapsto>
                  e\<lparr>data := replicate (object_size a) 0, in_use := IN_USE\<rparr>)\<rparr>)"
  using j(2,3)
proof (induction "j - k" arbitrary: k)
  case 0
  then have "k = j" by simp
  with dir j show ?case
    by (subst alloc_scan.simps)
      (simp add: read_pool_dir read_in_use_def take_entry_def memset_data_def write_in_use_def)
next
  case (Suc n)
  then have lt: "k < j" by simp
  with Suc.prems have "d ! k \<noteq> NULL" "flag w (d ! k) = Some IN_USE" by auto
  then have "read_in_use (d ! k) w = Inr IN_USE"
    by (auto simp: read_in_use_def flag_Some)
  moreover have "alloc_scan a (k + 1) w =
      Inr (data_addr (d ! j), w\<lparr>entries := (entries w)(d ! j \<mapsto>
                  e\<lparr>data := replicate (object_size a) 0, in_use := IN_USE\<rparr>)\<rparr>)"
    using Suc.hyps(2) Suc.prems lt by (intro Suc.hyps(1)) auto
  ultimately show ?case
    using dir j(1) lt \<open>d ! k \<noteq> NULL\<close>
    by (subst alloc_scan.simps) (simp add: read_pool_dir)
qed

text \<open>
  What the loop of \<open>get_stats\<close> counts: the entries in use among the slots before the
  first null slot.
\<close>

definition in_use_count :: "world \<Rightarrow> addr list \<Rightarrow> nat" where
  "in_use_count w d =
     length (filter (\<lambda>p. flag w p = Some IN_USE) (takeWhile (\<lambda>p. p \<noteq> NULL) d))"

lemma count_active_closed:
  assumes dir: "dirs w (pool a) = Some d" "pool a \<noteq> NULL" "length d = maximum_objects a"
    and live: "\<And>i. i < length d \<Longrightarrow> d ! i \<noteq> NULL \<Longrightarrow> entries w (d ! i) \<noteq> None"
    and i: "i \<le> length d"
  shows "count_active a i n w = Inr (n + in_use_count w (drop i d))"
  using i
proof (induction "length d - i" arbitrary: i n)
  case 0
  then have "i = length d" by simp
  with dir show ?case
    by (subst count_active.simps) (simp add: in_use_count_def)
next
  case (Suc k)
  then have lt: "i < length d" by simp
  then have dr: "drop i d = d ! i # drop (i + 1) d"
    by (simp add: Cons_nth_drop_Suc)
  show ?case
  proof (cases "d ! i = NULL")
    case True
    with dir lt show ?thesis
      by (subst count_active.simps) (simp add: read_pool_dir dr in_use_count_def)
  next
    case False
    from live [OF lt False] obtain e where e: "entries w (d ! i) = Some e" by blast
    have rec: "count_active a (Suc i) m w = Inr (m + in_use_count w (drop (Suc i) d))" for m
      using Suc.hyps(1) [of "Suc i" m] Suc.hyps(2) lt by auto
    have fl: "flag w (d ! i) = Some (in_use e)"
      using e by (simp add: flag_def)
    have step: "in_use_count w (d ! i # drop (Suc i) d) =
        (if in_use e = IN_USE then 1 else 0) + in_use_count w (drop (Suc i) d)"
      using False fl by (simp add: in_use_count_def)
    show ?thesis
      using dir lt False e
      by (subst count_active.simps)
        (simp add: read_pool_dir read_in_use_def rec dr step)
  qed
qed

lemma get_stats_closed:
  assumes "pool_inv h a d w"
  shows "op_ll_get_allocator_stats h w =
           Inr (\<lparr>stats_object_size = object_size a, stats_maximum_objects = maximum_objects a,
                 active_objects = in_use_count w d\<rparr>, w)"
proof -
  note D = pool_invD [OF assms]
  have "count_active a 0 0 w = Inr (0 + in_use_count w (drop 0 d))"
  proof (rule count_active_closed [OF D(3,7,4)])
    show "entries w (d ! i) \<noteq> None" if "i < length d" "d ! i \<noteq> NULL" for i
      using D(11) [OF that(1)] that(2) by (simp add: slot_ok_def)
  qed simp
  with D show ?thesis
    by (simp add: op_ll_get_allocator_stats_def)
qed

lemma in_use_count_swap:
  assumes dist: "distinct (takeWhile (\<lambda>p. p \<noteq> NULL) d)"
    and x: "x \<in> set (takeWhile (\<lambda>p. p \<noteq> NULL) d)" "flag w x = Some IN_USE"
    and y: "y \<in> set (takeWhile (\<lambda>p. p \<noteq> NULL) d)" "flag w y \<noteq> Some IN_USE"
    and f: "\<And>p. flag w' p = (if p = y then Some IN_USE else if p = x then Some NOT_IN_USE
              else flag w p)"
  shows "in_use_count w' d = in_use_count w d"
proof -
  let ?P = "takeWhile (\<lambda>p. p \<noteq> NULL) d"
  let ?A = "{p. flag w p = Some IN_USE} \<inter> set ?P"
  have xy: "x \<noteq> y" using x y by auto
  have eq: "{p. flag w' p = Some IN_USE} \<inter> set ?P = insert y (?A - {x})"
    using x y xy by (auto simp: f)
  have cd: "card (insert y (?A - {x})) = card ?A"
  proof -
    have fin: "finite ?A" by simp
    have "x \<in> ?A" "y \<notin> ?A" using x y by auto
    then have "card (insert y (?A - {x})) = Suc (card (?A - {x}))"
      using fin by (subst card_insert_disjoint) auto
    also have "\<dots> = card ?A"
      using card.remove [OF fin \<open>x \<in> ?A\<close>] by simp
    finally show ?thesis .
  qed
  have "in_use_count w' d = card ({p. flag w' p = Some IN_USE} \<inter> set ?P)"
    unfolding in_use_count_def by (rule distinct_length_filter [OF dist])
  also have "\<dots> = card (insert y (?A - {x}))"
    by (simp only: eq)
  also have "\<dots> = card ?A"
    by (rule cd)
  also have "\<dots> = in_use_count w d"
    unfolding in_use_count_def by (rule distinct_length_filter [OF dist, symmetric])
  finally show ?thesis .
qed

lemma in_use_count_same:
  assumes "\<And>p. flag w' p = flag w p"
  shows "in_use_count w' d = in_use_count w d"
  by (simp add: in_use_count_def assms)

lemma prefix_member:
  assumes "i < length d" "\<forall>j\<le>i. d ! j \<noteq> NULL"
  shows "d ! i \<in> set (takeWhile (\<lambda>p. p \<noteq> NULL) d)"
proof -
  have "Suc i \<le> length (takeWhile (\<lambda>p. p \<noteq> NULL) d)"
    using assms by (intro length_takeWhile_less_P_nth) auto
  then have "i < length (takeWhile (\<lambda>p. p \<noteq> NULL) d)" by simp
  then show ?thesis
    using nth_mem takeWhile_nth by metis
qed

lemma prefix_distinct:
  assumes "\<And>i j. i < length d \<Longrightarrow> j < length d \<Longrightarrow> i \<noteq> j \<Longrightarrow> d ! i \<noteq> NULL \<Longrightarrow> d ! i \<noteq> d ! j"
  shows "distinct (takeWhile (\<lambda>p. p \<noteq> NULL) d)"
  unfolding distinct_conv_nth
proof (intro allI impI)
  let ?P = "takeWhile (\<lambda>p. p \<noteq> NULL) d"
  fix i j assume ij: "i < length ?P" "j < length ?P" "i \<noteq> j"
  have le: "length ?P \<le> length d" by (rule length_takeWhile_le)
  have "?P ! i \<in> set ?P" using ij(1) by simp
  then have "?P ! i \<noteq> NULL" by (auto dest: set_takeWhileD)
  with ij le assms [of i j] show "?P ! i \<noteq> ?P ! j"
    by (simp add: takeWhile_nth)
qed

inductive pool_run ::
    "nat \<Rightarrow> nat \<Rightarrow> op_ll_allocator_mode \<Rightarrow> world \<Rightarrow> addr \<Rightarrow> world \<Rightarrow> bool"
  for osz c mode w0 where
  run_init: "heap_ok w0 \<Longrightarrow> op_ll_initialize_allocator osz c mode w0 = Inr (h, w)
      \<Longrightarrow> h \<noteq> NULL \<Longrightarrow> pool_run osz c mode w0 h w"
| run_allocate: "pool_run osz c mode w0 h w \<Longrightarrow> op_ll_allocate_object h w = Inr (p, w')
      \<Longrightarrow> p \<noteq> NULL \<Longrightarrow> pool_run osz c mode w0 h w'"
| run_deallocate: "pool_run osz c mode w0 h w \<Longrightarrow> op_ll_deallocate_object h object w = Inr w'
      \<Longrightarrow> pool_run osz c mode w0 h w'"

lemma pool_run_ok: "pool_run osz c mode w0 h w \<Longrightarrow> pool_ok h w"
proof (induction rule: pool_run.induct)
  case (run_init h w)
  from pool_inv_initialize [OF this] show ?case
    by (auto simp: pool_ok_def)
next
  case (run_allocate h w p w')
  then show ?case by (auto intro: pool_ok_allocate)
next
  case (run_deallocate h w object w')
  then show ?case by (auto intro: pool_ok_deallocate)
qed

lemma reuse_after_deallocate:
  assumes inv: "pool_inv h a d w"
    and i: "i < length d" "\<forall>j\<le>i. d ! j \<noteq> NULL" "flag w (d ! i) = Some IN_USE"
  shows "\<exists>w1 w2 j. op_ll_deallocate_object h (data_addr (d ! i)) w = Inr w1
           \<and> op_ll_allocate_object h w1 = Inr (data_addr (d ! j), w2)
           \<and> j \<le> i \<and> flag w1 (d ! j) = Some NOT_IN_USE \<and> flag w2 (d ! j) = Some IN_USE
           \<and> handles w2 = handles w \<and> dirs w2 = dirs w \<and> blocks w2 = blocks w
           \<and> brk w2 = brk w
           \<and> in_use_count w2 d = in_use_count w d \<and> pool_inv h a d w2"
proof -
  note D = pool_invD [OF inv]
  let ?x = "d ! i"
  from i(3) obtain e where e: "entries w ?x = Some e" "in_use e = IN_USE"
    by (auto simp: flag_Some)
  have xn: "?x \<noteq> NULL" using i by auto
  define w1 where "w1 = w\<lparr>entries := (entries w)(?x \<mapsto> e\<lparr>in_use := NOT_IN_USE\<rparr>)\<rparr>"
  have "dealloc_scan a (data_addr ?x) 0 w = Inr w1"
    unfolding w1_def
  proof (rule dealloc_scan_hit [OF D(3,7,4) i(1) _ _ xn e(1)])
    show "\<forall>j. 0 \<le> j \<and> j < i \<longrightarrow> d ! j \<noteq> NULL \<and> d ! j \<noteq> d ! i"
      using i(1,2) D(12) by (metis less_imp_le_nat less_trans nat_neq_iff)
  qed simp
  then have de: "op_ll_deallocate_object h (data_addr ?x) w = Inr w1"
    using D(2,6) by (simp add: op_ll_deallocate_object_def data_addr_def sizeof_ab_t_def)
  have inv1: "pool_inv h a d w1"
    unfolding w1_def by (rule pool_inv_entry_update [OF inv]) (simp add: e(1))
  note D1 = pool_invD [OF inv1]
  have f1: "flag w1 p = (if p = ?x then Some NOT_IN_USE else flag w p)" for p
    by (simp add: w1_def flag_def)
  define j where "j = (LEAST j. flag w1 (d ! j) = Some NOT_IN_USE)"
  have jP: "flag w1 (d ! j) = Some NOT_IN_USE"
    unfolding j_def by (rule LeastI [of _ i]) (simp add: f1)
  have ji: "j \<le> i"
    unfolding j_def by (rule Least_le) (simp add: f1)
  have before: "d ! k \<noteq> NULL \<and> flag w1 (d ! k) = Some IN_USE" if "k < j" for k
  proof -
    from that ji i have kn: "d ! k \<noteq> NULL" "k < length d" by auto
    from D1(11) [OF kn(2)] kn(1) obtain e' where e': "entries w1 (d ! k) = Some e'"
      by (auto simp: slot_ok_def)
    from that have "flag w1 (d ! k) \<noteq> Some NOT_IN_USE"
      unfolding j_def by (rule not_less_Least)
    with e' have "in_use e' = IN_USE"
      by (cases "in_use e'") (auto simp: flag_def)
    with e' kn show ?thesis by (simp add: flag_def)
  qed
  let ?y = "d ! j"
  from jP obtain e1 where e1: "entries w1 ?y = Some e1" "in_use e1 = NOT_IN_USE"
    by (auto simp: flag_Some)
  have jl: "j < length d" and yn: "?y \<noteq> NULL" using ji i by auto
  define w2 where "w2 = w1\<lparr>entries := (entries w1)(?y \<mapsto>
      e1\<lparr>data := replicate (object_size a) 0, in_use := IN_USE\<rparr>)\<rparr>"
  have sc: "alloc_scan a 0 w1 = Inr (data_addr ?y, w2)"
    unfolding w2_def
    by (rule alloc_scan_reuse [OF D1(3,7,4) jl _ _ yn e1]) (use before in auto)
  have "allocate_retry h w1 = Inr (data_addr ?y, w2)"
    using D1(2) sc by (subst allocate_retry.simps) (simp add: data_addr_def sizeof_ab_t_def)
  then have al: "op_ll_allocate_object h w1 = Inr (data_addr ?y, w2)"
    using D1(2,5,6) by (simp add: op_ll_allocate_object_def data_addr_def sizeof_ab_t_def)
  have inv2: "pool_inv h a d w2"
    unfolding w2_def by (rule pool_inv_entry_update [OF inv1]) (simp add: e1(1))
  have f2: "flag w2 p = (if p = ?y then Some IN_USE else if p = ?x then Some NOT_IN_USE
      else flag w p)" for p
    by (simp add: w2_def flag_def f1 [unfolded flag_def])
  have cnt: "in_use_count w2 d = in_use_count w d"
  proof (cases "?y = ?x")
    case True
    show ?thesis
      by (rule in_use_count_same) (use True i(3) in \<open>simp add: f2\<close>)
  next
    case False
    show ?thesis
    proof (rule in_use_count_swap [where x = "?x" and y = "?y"])
      show "distinct (takeWhile (\<lambda>p. p \<noteq> NULL) d)"
        by (rule prefix_distinct) (rule D(12))
      show "?x \<in> set (takeWhile (\<lambda>p. p \<noteq> NULL) d)"
        using i by (intro prefix_member) auto
      show "?y \<in> set (takeWhile (\<lambda>p. p \<noteq> NULL) d)"
        using i ji jl by (intro prefix_member) auto
      show "flag w ?x = Some IN_USE" by (rule i(3))
      show "flag w ?y \<noteq> Some IN_USE"
        using jP False by (simp add: f1)
      show "flag w2 p = (if p = ?y then Some IN_USE else if p = ?x then Some NOT_IN_USE
          else flag w p)" for p
        by (rule f2)
    qed
  qed
  have "flag w2 ?y = Some IN_USE" by (simp add: f2)
  moreover have "handles w2 = handles w" "dirs w2 = dirs w" "blocks w2 = blocks w" "brk w2 = brk w"
    by (simp_all add: w2_def w1_def)
  ultimately show ?thesis
    using de al ji jP cnt inv2 by blast
qed

text \<open>
  Take a handle reached from \<open>op_ll_initialize_allocator\<close> by successful calls, and an
  object of it that is in use: slot \<open>i\<close> of the directory, with backing storage in every slot
  up to \<open>i\<close> (the directory has no gap there). Then \<open>op_ll_deallocate_object\<close> on the object
  followed by \<open>op_ll_allocate_object\<close> returns the payload of a slot of the same directory
  whose flag was \<open>NOT_IN_USE\<close>, and marks it \<open>IN_USE\<close>. The pool has not grown: the struct of the
  handle (with \<open>maximum_objects\<close>), the directory, the live blocks and the end of the heap
  are those before the two calls. \<open>op_ll_get_allocator_stats\<close> returns the same record before
  and after, so the number of active objects is unchanged.
\<close>

lemma reuse_when_no_gap:
  assumes run: "pool_run osz c mode w0 h w"
    and a: "handles w h = Some a" "dirs w (pool a) = Some d"
    and i: "i < length d" "\<forall>j\<le>i. d ! j \<noteq> NULL" "flag w (d ! i) = Some IN_USE"
  shows "\<exists>w1 w2 j s.
           op_ll_deallocate_object h (data_addr (d ! i)) w = Inr w1
         \<and> op_ll_allocate_object h w1 = Inr (data_addr (d ! j), w2)
         \<and> j < length d \<and> flag w1 (d ! j) = Some NOT_IN_USE \<and> flag w2 (d ! j) = Some IN_USE
         \<and> handles w2 h = Some a \<and> dirs w2 = dirs w \<and> blocks w2 = blocks w \<and> brk w2 = brk w
         \<and> op_ll_get_allocator_stats h w = Inr (s, w)
         \<and> op_ll_get_allocator_stats h w2 = Inr (s, w2)
         \<and> stats_maximum_objects s = maximum_objects a"
proof -
  from pool_run_ok [OF run] obtain a' d' where inv': "pool_inv h a' d' w"
    by (auto simp: pool_ok_def)
  with a have inv: "pool_inv h a d w"
    using pool_invD(2,3) [OF inv'] by simp
  from reuse_after_deallocate [OF inv i] obtain w1 w2 j where r:
    "op_ll_deallocate_object h (data_addr (d ! i)) w = Inr w1"
    "op_ll_allocate_object h w1 = Inr (data_addr (d ! j), w2)"
    "j \<le> i" "flag w1 (d ! j) = Some NOT_IN_USE" "flag w2 (d ! j) = Some IN_USE"
    "handles w2 = handles w" "dirs w2 = dirs w" "blocks w2 = blocks w" "brk w2 = brk w"
    "in_use_count w2 d = in_use_count w d" "pool_inv h a d w2"
    by blast
  let ?s = "\<lparr>stats_object_size = object_size a, stats_maximum_objects = maximum_objects a,
    active_objects = in_use_count w d\<rparr>"
  have "op_ll_get_allocator_stats h w = Inr (?s, w)"
    by (rule get_stats_closed [OF inv])
  moreover have "op_ll_get_allocator_stats h w2 = Inr (?s, w2)"
    using get_stats_closed [OF r(11)] r(10) by simp
  moreover have "j < length d" using r(3) i(1) by simp
  moreover have "handles w2 h = Some a" using r(6) a(1) by simp
  moreover have "stats_maximum_objects ?s = maximum_objects a" by simp
  ultimately show ?thesis
    using r(1,2,4,5,7,8,9) by blast
qed

text \<open>Capacity 3 with two objects: the first is given back and handed out again.\<close>

lemma heap_ok_fresh_world: "heap_ok (fresh_world scr)"
  by (simp add: heap_ok_def fresh_world_def)

lemma doubling_w0_init:
  "op_ll_initialize_allocator 8 3 OP_DOUBLING_INDIVIDUAL (fresh_world [True, True, True, True])
     = Inr (100, doubling_w0)"
  by (simp add: doubling_w0_def eval_defs)

lemma one_object_w_alloc: "op_ll_allocate_object 100 doubling_w0 = Inr (168, one_object_w)"
  by (simp add: one_object_w_def doubling_w0_def eval_defs eval_alloc_defs)

lemma two_objects_w_alloc: "op_ll_allocate_object 100 one_object_w = Inr (180, two_objects_w)"
  by (simp add: two_objects_w_def one_object_w_def doubling_w0_def eval_defs eval_alloc_defs)

lemma two_objects_w_run:
  "pool_run 8 3 OP_DOUBLING_INDIVIDUAL (fresh_world [True, True, True, True]) 100 two_objects_w"
  by (rule run_allocate [OF run_allocate [OF run_init [OF heap_ok_fresh_world doubling_w0_init]
      one_object_w_alloc] two_objects_w_alloc]) simp_all

definition two_objects_struct :: op_allocator where
  "two_objects_struct =
     \<lparr>object_size = 8, initial_count = 3, maximum_objects = 3, use_chunks = False,
      use_linear = False, initialized = True, pool = 140\<rparr>"

lemma reuse_when_no_gap_example:
  "pool_run 8 3 OP_DOUBLING_INDIVIDUAL (fresh_world [True, True, True, True]) 100 two_objects_w
   \<and> handles two_objects_w 100 = Some two_objects_struct
   \<and> dirs two_objects_w 140 = Some [164, 176, NULL]
   \<and> flag two_objects_w 164 = Some IN_USE
   \<and> (\<exists>w1 w2 j s.
         op_ll_deallocate_object 100 (data_addr 164) two_objects_w = Inr w1
       \<and> op_ll_allocate_object 100 w1 = Inr (data_addr ([164, 176, NULL] ! j), w2)
       \<and> j < 3 \<and> flag w1 ([164, 176, NULL] ! j) = Some NOT_IN_USE
       \<and> flag w2 ([164, 176, NULL] ! j) = Some IN_USE
       \<and> handles w2 100 = Some two_objects_struct \<and> dirs w2 = dirs two_objects_w
       \<and> blocks w2 = blocks two_objects_w \<and> brk w2 = brk two_objects_w
       \<and> op_ll_get_allocator_stats 100 two_objects_w = Inr (s, two_objects_w)
       \<and> op_ll_get_allocator_stats 100 w2 = Inr (s, w2)
       \<and> stats_maximum_objects s = 3)"
proof -
  have h: "handles two_objects_w 100 = Some two_objects_struct"
    by (simp add: two_objects_struct_def two_objects_w_def one_object_w_def doubling_w0_def
        eval_defs eval_alloc_defs)
  have d: "dirs two_objects_w (pool two_objects_struct) = Some [164, 176, NULL]"
    by (simp add: two_objects_struct_def two_objects_w_def one_object_w_def doubling_w0_def
        eval_defs eval_alloc_defs)
  have f: "flag two_objects_w ([164, 176, NULL] ! 0) = Some IN_USE"
    by (simp add: flag_def two_objects_w_def one_object_w_def doubling_w0_def
        eval_defs eval_alloc_defs)
  from reuse_when_no_gap [OF two_objects_w_run h d _ _ f] h d f two_objects_w_run
  show ?thesis
    by (simp add: two_objects_struct_def numeral_3_eq_3)
qed

text \<open>
  C8. The claim: on every initialized handle with a slot in use, deallocating an object
  and then allocating returns a freed slot; the capacity and the number of active objects
  are unchanged by the pair.

  The scan of \<open>allocate\<close> takes the first slot that is null or not in use, so this holds as
  long as no null slot comes before the freed one. After a failed \<open>calloc\<close> the scan goes
  on with the next index, which leaves such a slot. Capacity 2, individual; in the first
  allocation the \<open>calloc\<close> for slot 0 fails and the one for slot 1 succeeds: the object is
  entry 156 (payload 160), the directory is \<open>[0, 156]\<close>, and \<open>get_stats\<close> counts no active
  object (see C5). After \<open>deallocate\<close> of the object, entry 156 is \<open>NOT_IN_USE\<close>. The next
  allocation does not return it: it requests new storage (the block at 168, which did not
  exist before) for slot 0 and returns the payload 172; entry 156 stays \<open>NOT_IN_USE\<close>.
  The count of \<open>get_stats\<close> goes from 0 to 1 over the pair; \<open>maximum_objects\<close> stays 2.
\<close>

theorem allocate_after_deallocate_takes_null_slot:
  "on_ok (op_ll_initialize_allocator 8 2 OP_DOUBLING_INDIVIDUAL
            (fresh_world [True, True, False, True, True])) (\<lambda>(h, w0).
   on_ok (op_ll_allocate_object h w0) (\<lambda>(p, w1).
   on_ok (op_ll_get_allocator_stats h w1) (\<lambda>(s1, u1).
   on_ok (op_ll_deallocate_object h p w1) (\<lambda>w2.
   on_ok (op_ll_allocate_object h w2) (\<lambda>(q, w3).
   on_ok (op_ll_get_allocator_stats h w3) (\<lambda>(s3, u3).
     Inr ((p, dirs w1 140, flag w1 156, active_objects s1, stats_maximum_objects s1),
          (flag w2 156, blocks w2 168),
          (q, dirs w3 140, flag w3 156, flag w3 168, blocks w3 168, active_objects s3,
           stats_maximum_objects s3))))))))
   = Inr ((160, Some [NULL, 156], Some IN_USE, 0, 2),
          (Some NOT_IN_USE, None),
          (172, Some [168, 156], Some NOT_IN_USE, Some IN_USE, Some 12, 1, 2))"
  by code_simp

section \<open>Chunks and their release (C1)\<close>

text \<open>
  C1. The claim: for a chunked handle, \<open>deinitialize\<close> frees the backing blocks in the
  groups in which \<open>initialize\<close> and \<open>grow_pool\<close> created them: one block at each of the
  offsets 0, \<open>initial_count\<close>, \<open>2 * initial_count\<close>, ... (linear) or 0, \<open>initial_count\<close>,
  \<open>2 * initial_count\<close>, \<open>4 * initial_count\<close>, ... (doubling) below \<open>maximum_objects\<close>, and
  these offsets are the ones at which \<open>fill_chunks\<close> installed a block.

  The loops of \<open>op_ll_deinitialize_allocator\<close> compute the offsets from \<open>initial_count\<close> and
  \<open>maximum_objects\<close>. \<open>grow_pool\<close> sets \<open>maximum_objects = new_size\<close> before it calls
  \<open>fill_chunks\<close> and leaves it there when \<open>fill_chunks\<close> fails, so the offsets below
  \<open>maximum_objects\<close> then include one at which \<open>fill_chunks\<close> installed nothing; the slots
  of that group are null, and \<open>allocate\<close> fills them one by one with \<open>calloc\<close>. Capacity 2,
  chunked: two allocations; a third whose growth step fails in \<open>fill_chunks\<close> (capacity 4,
  directory \<open>[156, 168, 0, 0]\<close>); two more, which get the entries 236 and 248, each a
  block of its own of 12 bytes. \<open>deinitialize\<close> then frees the chunk 156 of \<open>initialize\<close>
  and, at offset 2, the single entry 236, then the directory and the struct. The entry
  248 is never freed: its block is still live afterwards. Listed are the six results, the
  capacity, the directory and the blocks behind its slots before \<open>deinitialize\<close>, the
  pointers passed to \<open>free\<close>, and the blocks behind the slots afterwards; the same in both
  chunked modes.
\<close>

theorem deinitialize_after_failed_chunk_growth:
  "map (\<lambda>mode.
     on_ok (op_ll_initialize_allocator 8 2 mode
              (fresh_world [True, True, True, True, False, True, True])) (\<lambda>(h, w0).
     on_ok (op_ll_allocate_object h w0) (\<lambda>(p1, w1).
     on_ok (op_ll_allocate_object h w1) (\<lambda>(p2, w2).
     on_ok (op_ll_allocate_object h w2) (\<lambda>(p3, w3).
     on_ok (op_ll_allocate_object h w3) (\<lambda>(p4, w4).
     on_ok (op_ll_allocate_object h w4) (\<lambda>(p5, w5).
     on_ok (op_ll_deinitialize_allocator h w5) (\<lambda>w6.
       Inr ([p1, p2, p3, p4, p5], map_option maximum_objects (handles w5 h), dirs w5 204,
            map (blocks w5) [156, 168, 236, 248], freed w6,
            map (blocks w6) [156, 168, 236, 248])))))))))
     [OP_LINEAR_CHUNK, OP_DOUBLING_CHUNK]
   = replicate 2
       (Inr ([160, 172, NULL, 240, 252], Some 4, Some [156, 168, 236, 248],
             [Some 48, None, Some 12, Some 12], [156, 236, 204, 100],
             [None, None, None, Some 12]))"
  by code_simp


text \<open>
  The capacity after \<open>n\<close> growth steps, and the calls of \<open>fill_chunks\<close> up to then, each
  with its \<open>offset\<close> and \<open>object_count\<close>: \<open>op_ll_initialize_allocator\<close> calls
  \<open>fill_chunks(rv, 0, maximum_objects)\<close>, and \<open>grow_pool\<close> calls
  \<open>fill_chunks(allocator, old_size, grow_size)\<close>.
\<close>

definition capacity_at :: "bool \<Rightarrow> nat \<Rightarrow> nat \<Rightarrow> nat" where
  "capacity_at lin c n = (if lin then c + n * c else c * 2 ^ n)"

fun fill_calls :: "bool \<Rightarrow> nat \<Rightarrow> nat \<Rightarrow> (nat \<times> nat) list" where
  "fill_calls lin c 0 = [(0, c)]"
| "fill_calls lin c (Suc n) =
     fill_calls lin c n @ [(capacity_at lin c n, if lin then c else capacity_at lin c n)]"

lemma capacity_at_Suc:
  "capacity_at lin c (Suc n) = capacity_at lin c n + (if lin then c else capacity_at lin c n)"
  by (simp add: capacity_at_def)

lemma capacity_at_pos: "0 < c \<Longrightarrow> 0 < capacity_at lin c n"
  by (simp add: capacity_at_def)

lemma fill_calls_offsets:
  "map fst (fill_calls lin c n) =
     (if lin then map (\<lambda>k. k * c) [0..<Suc n] else 0 # map (\<lambda>k. c * 2 ^ k) [0..<n])"
  by (induction n) (simp_all add: capacity_at_def)

lemma fill_calls_bound:
  assumes "(s, m) \<in> set (fill_calls lin c n)"
  shows "s + m \<le> capacity_at lin c n"
  using assms
proof (induction n)
  case 0
  then show ?case by (simp add: capacity_at_def)
next
  case (Suc n)
  from Suc.prems consider "(s, m) \<in> set (fill_calls lin c n)"
    | "s = capacity_at lin c n" "m = (if lin then c else capacity_at lin c n)"
    by auto
  then show ?case
  proof cases
    case 1
    from Suc.IH [OF 1] show ?thesis
      by (simp add: capacity_at_Suc)
  next
    case 2
    then show ?thesis
      by (simp add: capacity_at_Suc)
  qed
qed

lemma fill_calls_pos:
  assumes "(s, m) \<in> set (fill_calls lin c n)" "0 < c"
  shows "0 < m"
  using assms by (induction n) (auto simp: capacity_at_pos split: if_splits)

lemma fill_calls_distinct:
  assumes "0 < c"
  shows "distinct (map fst (fill_calls lin c n))"
proof (induction n)
  case 0
  show ?case by simp
next
  case (Suc n)
  have "capacity_at lin c n \<notin> fst ` set (fill_calls lin c n)"
  proof
    assume "capacity_at lin c n \<in> fst ` set (fill_calls lin c n)"
    then obtain m where m: "(capacity_at lin c n, m) \<in> set (fill_calls lin c n)"
      by auto
    from fill_calls_bound [OF m] fill_calls_pos [OF m assms] show False
      by simp
  qed
  with Suc show ?case by simp
qed

lemma fill_calls_cover:
  assumes "i < capacity_at lin c n"
  shows "\<exists>(s, m) \<in> set (fill_calls lin c n). s \<le> i \<and> i < s + m"
  using assms
proof (induction n)
  case 0
  then show ?case by (simp add: capacity_at_def split: if_splits)
next
  case (Suc n)
  show ?case
  proof (cases "i < capacity_at lin c n")
    case True
    from Suc.IH [OF True] show ?thesis by auto
  next
    case False
    with Suc.prems show ?thesis
      by (simp add: capacity_at_Suc)
  qed
qed

text \<open>
  The layout of a chunked pool after \<open>n\<close> growth steps: for every call of \<open>fill_chunks\<close>
  the slot at its offset holds the base of a live block of the size that \<open>fill_chunks\<close>
  requests, and the slots of the group point into that block, \<open>entry_size\<close> apart.
\<close>

definition chunk_inv :: "op_allocator \<Rightarrow> addr list \<Rightarrow> world \<Rightarrow> nat \<Rightarrow> bool" where
  "chunk_inv a d w n \<longleftrightarrow>
     use_chunks a \<and> 0 < initial_count a
     \<and> maximum_objects a = capacity_at (use_linear a) (initial_count a) n
     \<and> (\<forall>(s, m) \<in> set (fill_calls (use_linear a) (initial_count a) n).
           blocks w (d ! s) = Some (m * (m * entry_size a))
           \<and> (\<forall>j<m. d ! (s + j) = d ! s + j * entry_size a))"

lemma chunk_invD:
  assumes "chunk_inv a d w n"
  shows "use_chunks a" "0 < initial_count a"
    "maximum_objects a = capacity_at (use_linear a) (initial_count a) n"
    "\<And>s m. (s, m) \<in> set (fill_calls (use_linear a) (initial_count a) n)
       \<Longrightarrow> blocks w (d ! s) = Some (m * (m * entry_size a))"
    "\<And>s m j. (s, m) \<in> set (fill_calls (use_linear a) (initial_count a) n) \<Longrightarrow> j < m
       \<Longrightarrow> d ! (s + j) = d ! s + j * entry_size a"
  using assms unfolding chunk_inv_def by auto

lemma chunk_inv_same:
  assumes "chunk_inv a d w n" "blocks w' = blocks w"
  shows "chunk_inv a d w' n"
  using assms by (simp add: chunk_inv_def)

lemma chunk_nonnull:
  assumes ok: "heap_ok w" and c: "chunk_inv a d w n" and i: "i < maximum_objects a"
  shows "d ! i \<noteq> NULL"
proof -
  note C = chunk_invD [OF c]
  from i C(3) fill_calls_cover [of i "use_linear a" "initial_count a" n]
  obtain s m where sm: "(s, m) \<in> set (fill_calls (use_linear a) (initial_count a) n)"
    "s \<le> i" "i < s + m"
    by auto
  from heap_ok_block [OF ok C(4) [OF sm(1)]] have "0 < d ! s" by simp
  moreover from C(5) [OF sm(1), of "i - s"] sm(2,3)
  have "d ! i = d ! s + (i - s) * entry_size a" by simp
  ultimately show ?thesis by simp
qed

lemma chunk_start_block:
  assumes inv: "pool_inv h a d w" and c: "chunk_inv a d w n"
    and sm: "(s, m) \<in> set (fill_calls (use_linear a) (initial_count a) n)"
  shows "s < length d" "d ! s \<noteq> NULL" "d ! s \<noteq> h" "d ! s \<noteq> pool a" "d ! s < brk w"
proof -
  note D = pool_invD [OF inv] and C = chunk_invD [OF c]
  from fill_calls_bound [OF sm] fill_calls_pos [OF sm C(2)] C(3) D(4)
  show s: "s < length d" by simp
  from heap_ok_block [OF D(1) C(4) [OF sm]] show n: "d ! s \<noteq> NULL" and "d ! s < brk w"
    by (simp_all add: max_def split: if_splits)
  from D(11) [OF s] n obtain b where b: "in_block w b (d ! s)" "b \<noteq> h" "b \<noteq> pool a"
    by (auto simp: slot_ok_def)
  from in_block_unique [OF D(1) b(1) in_block_base [OF C(4) [OF sm]]] b(2,3)
  show "d ! s \<noteq> h" "d ! s \<noteq> pool a" by simp_all
qed

text \<open>With no null slot the scan only takes an entry; \<open>deallocate\<close> only clears a flag.\<close>

lemma alloc_scan_full:
  assumes "dirs w (pool a) = Some d" "\<And>i. i < maximum_objects a \<Longrightarrow> d ! i \<noteq> NULL"
    "alloc_scan a i w = Inr (r, w')"
  shows "handles w' = handles w \<and> dirs w' = dirs w \<and> blocks w' = blocks w \<and> brk w' = brk w
       \<and> freed w' = freed w \<and> (r = NULL \<longrightarrow> w' = w)"
  using assms(3)
proof (induction "maximum_objects a - i" arbitrary: i rule: less_induct)
  case less
  from less.prems show ?case
  proof (cases rule: alloc_scan_step)
    case stop
    then show ?thesis by simp
  next
    case (fresh q w1 w2)
    from fresh(2) assms(1) have "d ! i = NULL"
      by (auto simp: read_pool_Inr)
    with assms(2) [OF fresh(1)] show ?thesis by simp
  next
    case (nomem w1 w2)
    from nomem(2) assms(1) have "d ! i = NULL"
      by (auto simp: read_pool_Inr)
    with assms(2) [OF nomem(1)] show ?thesis by simp
  next
    case (reuse p)
    then show ?thesis
      by (auto simp: take_entry_Inr data_addr_def sizeof_ab_t_def)
  next
    case (skip p)
    have "maximum_objects a - (i + 1) < maximum_objects a - i"
      using skip(1) by simp
    from less.hyps [OF this skip(5)] show ?thesis .
  qed
qed

lemma dealloc_scan_frame:
  assumes "dealloc_scan a object i w = Inr w'"
  shows "handles w' = handles w \<and> dirs w' = dirs w \<and> blocks w' = blocks w \<and> brk w' = brk w
       \<and> freed w' = freed w"
  using assms
proof (induction "maximum_objects a - i" arbitrary: i rule: less_induct)
  case less
  from less.prems show ?case
  proof (cases rule: dealloc_scan_step)
    case stop
    then show ?thesis by simp
  next
    case (hit p)
    then show ?thesis
      by (auto simp: write_in_use_Inr)
  next
    case (skip p)
    have "maximum_objects a - (i + 1) < maximum_objects a - i"
      using skip(1) by simp
    from less.hyps [OF this skip(4)] show ?thesis .
  qed
qed

text \<open>A growth step adds the group of its call of \<open>fill_chunks\<close>, and keeps the others.\<close>

lemma grown_struct_fields [simp]:
  "use_chunks (grown_struct a w) = use_chunks a"
  "use_linear (grown_struct a w) = use_linear a"
  "initial_count (grown_struct a w) = initial_count a"
  "object_size (grown_struct a w) = object_size a"
  "initialized (grown_struct a w) = initialized a"
  "maximum_objects (grown_struct a w) = new_size a"
  "pool (grown_struct a w) = brk w"
  "entry_size (grown_struct a w) = entry_size a"
  by (simp_all add: grown_struct_def entry_size_def)

lemma chunk_inv_grow:
  assumes inv: "pool_inv h a d w" and c: "chunk_inv a d w n"
    and g: "grow_pool h w = Inr (True, w')"
  shows "chunk_inv (grown_struct a w)
           (d @ map (\<lambda>j. chunk_base a w + j * entry_size a) [0..<grow_size a]) w' (Suc n)"
proof -
  note D = pool_invD [OF inv] and C = chunk_invD [OF c]
  let ?lin = "use_linear a" and ?c = "initial_count a"
  let ?new = "map (\<lambda>j. chunk_base a w + j * entry_size a) [0..<grow_size a]"
  from D(10) obtain k where k: "blocks w (pool a) = Some k" by auto
  note G = grow_pool_closed [OF g D(2,3,4,7) k blocks_brk_None [OF D(1)]]
  from G(4) C(1) have b': "blocks w' =
      (((blocks w)(brk w \<mapsto> sizeof_ptr * new_size a))(pool a := None))
        (chunk_base a w \<mapsto> grow_size a * (grow_size a * entry_size a))"
    by simp
  have gs: "grow_size a = (if ?lin then ?c else capacity_at ?lin ?c n)"
    by (simp add: grow_size_def C(3))
  have gpos: "0 < grow_size a"
    using C(2) by (simp add: gs capacity_at_pos)
  have len: "length d = capacity_at ?lin ?c n"
    using D(4) C(3) by simp
  have cap: "new_size a = capacity_at ?lin ?c (Suc n)"
    by (simp add: new_size_def capacity_at_Suc gs C(3))
  have grp: "blocks w' ((d @ ?new) ! s) = Some (m * (m * entry_size a))
      \<and> (\<forall>j<m. (d @ ?new) ! (s + j) = (d @ ?new) ! s + j * entry_size a)"
    if sm: "(s, m) \<in> set (fill_calls ?lin ?c (Suc n))" for s m
  proof -
    from sm consider "(s, m) \<in> set (fill_calls ?lin ?c n)"
      | "s = length d" "m = grow_size a"
      by (auto simp: len gs)
    then show ?thesis
    proof cases
      case 1
      note S = chunk_start_block [OF inv c 1]
      from fill_calls_bound [OF 1] len have sm_le: "s + m \<le> length d" by simp
      have "chunk_base a w \<noteq> d ! s" "brk w \<noteq> d ! s"
        using S(5) by (simp_all add: chunk_base_def)
      with b' S(4) C(4) [OF 1] have "blocks w' (d ! s) = Some (m * (m * entry_size a))"
        by simp
      moreover have "(d @ ?new) ! (s + j) = d ! (s + j)" if "j < m" for j
        using that sm_le by (simp add: nth_append)
      moreover have "(d @ ?new) ! s = d ! s"
        using S(1) by (simp add: nth_append)
      ultimately show ?thesis
        using C(5) [OF 1] by simp
    next
      case 2
      have "(d @ ?new) ! (s + j) = chunk_base a w + j * entry_size a" if "j < m" for j
        using that 2 by (simp add: nth_append)
      moreover from this [of 0] gpos 2 have "(d @ ?new) ! s = chunk_base a w"
        by simp
      ultimately show ?thesis
        using b' 2 by simp
    qed
  qed
  show ?thesis
    unfolding chunk_inv_def using C(1,2) cap grp by (auto simp del: fill_calls.simps)
qed

text \<open>
  Every pool in a chunked mode that is reached by successful calls has this layout, for
  some number of growth steps.
\<close>

definition chunked :: "addr \<Rightarrow> nat \<Rightarrow> nat \<Rightarrow> bool \<Rightarrow> world \<Rightarrow> bool" where
  "chunked h osz c lin w \<longleftrightarrow>
     (\<exists>a d n. pool_inv h a d w \<and> chunk_inv a d w n
        \<and> object_size a = osz \<and> initial_count a = c \<and> use_linear a = lin)"

lemma chunked_allocate_retry:
  assumes "chunked h osz c lin w" "allocate_retry h w = Inr (r, w')" "r \<noteq> NULL"
  shows "chunked h osz c lin w'"
  using assms
proof (induction w rule: allocate_retry_induct [where h = h])
  case (round w)
  from round.prems(1) obtain a d n where inv: "pool_inv h a d w" and c: "chunk_inv a d w n"
    and f: "object_size a = osz" "initial_count a = c" "use_linear a = lin"
    by (auto simp: chunked_def)
  note D = pool_invD [OF inv]
  have full: "\<And>i. i < maximum_objects a \<Longrightarrow> d ! i \<noteq> NULL"
    by (rule chunk_nonnull [OF D(1) c])
  from round.prems(2) show ?case
  proof (cases rule: allocate_retry_step)
    case (found a')
    with D(2) have sc: "alloc_scan a 0 w = Inr (r, w')" by simp
    note F = alloc_scan_full [OF D(3) full sc]
    from pool_inv_alloc_scan [OF inv sc] obtain d' where inv': "pool_inv h a d' w'" ..
    from pool_invD(3) [OF inv'] F D(3) have "d' = d" by simp
    with inv' chunk_inv_same [OF c, of w'] F f show ?thesis
      by (auto simp: chunked_def)
  next
    case (failed a' w1 w2)
    with round.prems show ?thesis by simp
  next
    case (retry a' w1 w2)
    with D(2) have sc: "alloc_scan a 0 w = Inr (NULL, w1)" by simp
    from alloc_scan_full [OF D(3) full sc] have "w1 = w" by simp
    with retry(3) have g: "grow_pool h w = Inr (True, w2)" by simp
    let ?a = "grown_struct a w"
    let ?d = "d @ map (\<lambda>j. chunk_base a w + j * entry_size a) [0..<grow_size a]"
    from pool_inv_grow [OF inv g] chunk_invD(1) [OF c] have "pool_inv h ?a ?d w2"
      by simp
    moreover note chunk_inv_grow [OF inv c g]
    moreover have "object_size ?a = osz" "initial_count ?a = c" "use_linear ?a = lin"
      by (simp_all add: f)
    ultimately have "chunked h osz c lin w2"
      unfolding chunked_def by blast
    from round.IH [OF retry(1,2,3) this retry(4) round.prems(3)] show ?thesis .
  qed
qed

lemma chunked_allocate:
  assumes "chunked h osz c lin w" "op_ll_allocate_object h w = Inr (p, w')" "p \<noteq> NULL"
  shows "chunked h osz c lin w'"
proof -
  from assms(2,3) have "allocate_retry h w = Inr (p, w')"
    by (auto simp: op_ll_allocate_object_def Let_def
        split: if_splits option.splits sum.splits prod.splits)
  from chunked_allocate_retry [OF assms(1) this assms(3)] show ?thesis .
qed

lemma chunked_deallocate:
  assumes "chunked h osz c lin w" "op_ll_deallocate_object h object w = Inr w'"
  shows "chunked h osz c lin w'"
proof -
  from assms(1) obtain a d n where inv: "pool_inv h a d w" and c: "chunk_inv a d w n"
    and f: "object_size a = osz" "initial_count a = c" "use_linear a = lin"
    by (auto simp: chunked_def)
  note D = pool_invD [OF inv]
  have "pool_inv h a d w' \<and> blocks w' = blocks w"
  proof (cases "object = NULL")
    case True
    with assms(2) have "w' = op_error_handler ''Invalid allocator or object while deallocating.'' w"
      by (simp add: op_ll_deallocate_object_def)
    with pool_inv_fields [OF inv, of w'] show ?thesis
      by simp
  next
    case False
    with assms(2) D(2,6) have sc: "dealloc_scan a object 0 w = Inr w'"
      by (simp add: op_ll_deallocate_object_def)
    from pool_inv_dealloc_scan [OF inv sc] dealloc_scan_frame [OF sc] show ?thesis
      by simp
  qed
  with chunk_inv_same [OF c, of w'] f show ?thesis
    unfolding chunked_def by blast
qed

lemma chunk_inv_initialize:
  assumes i: "op_ll_initialize_allocator osz c mode w0 = Inr (h, w)" "h \<noteq> NULL"
    and m: "mode_chunks mode" "0 < c"
  shows "chunk_inv (first_struct osz c mode w0) (first_dir osz c mode w0) w 0"
proof -
  note I = initialize_closed [OF i]
  have "first_dir osz c mode w0 ! j = first_chunk c w0 + j * (sizeof_ab_t + osz)" if "j < c" for j
    using that m(1) by (simp add: first_dir_def)
  moreover from this [of 0] m(2)
  have "first_dir osz c mode w0 ! 0 = first_chunk c w0" by simp
  moreover have "blocks w (first_chunk c w0) = Some (c * (c * (sizeof_ab_t + osz)))"
    using m(1) by (simp add: I)
  ultimately show ?thesis
    using m by (simp add: chunk_inv_def first_struct_def capacity_at_def entry_size_def)
qed

lemma pool_run_chunked:
  assumes "pool_run osz c mode w0 h w" "mode_chunks mode" "0 < c"
  shows "chunked h osz c (mode_linear mode) w"
  using assms
proof (induction rule: pool_run.induct)
  case (run_init h w)
  from pool_inv_initialize [OF run_init(1,2,3)] chunk_inv_initialize [OF run_init(2,3,4,5)]
  show ?case
    unfolding chunked_def by (intro exI conjI) (assumption, assumption, simp_all add: first_struct_def)
next
  case (run_allocate h w p w')
  then show ?case by (auto intro: chunked_allocate)
next
  case (run_deallocate h w object w')
  then show ?case by (auto intro: chunked_deallocate)
qed

subsection \<open>Deinitializing a chunked pool after successful calls\<close>

text \<open>
  The body of the loops of \<open>op_ll_deinitialize_allocator\<close>, \<open>free(allocator->pool[i])\<close>, for
  a list of indices; the two loops of the chunked modes run it at these indices.
\<close>

fun free_at :: "op_allocator \<Rightarrow> nat list \<Rightarrow> world \<Rightarrow> fault + world" where
  "free_at a [] w = Inr w"
| "free_at a (s # ss) w =
     (case read_pool a s w of
        Inl f \<Rightarrow> Inl f
      | Inr p \<Rightarrow>
          (case heap_free p w of
             Inl f \<Rightarrow> Inl f
           | Inr w1 \<Rightarrow> free_at a ss w1))"

lemma free_linear_unfold:
  assumes "0 < initial_count a"
    "maximum_objects a = initial_count a + n * initial_count a" "k \<le> Suc n"
  shows "free_linear a (k * initial_count a) w
       = free_at a (map (\<lambda>j. j * initial_count a) [k..<Suc n]) w"
  using assms(3)
proof (induction "Suc n - k" arbitrary: k w)
  case 0
  then have "k = Suc n" by simp
  with assms(2) show ?case
    by (subst free_linear.simps) simp
next
  case (Suc x)
  then have k: "k < Suc n" "x = Suc n - Suc k" "Suc k \<le> Suc n" by simp_all
  have lt: "k * initial_count a < maximum_objects a"
  proof -
    from k(1) have "k * initial_count a \<le> n * initial_count a"
      by (intro mult_le_mono1) simp
    with assms(1,2) show ?thesis by linarith
  qed
  have nxt: "k * initial_count a + initial_count a = Suc k * initial_count a"
    by simp
  have l: "[k..<Suc n] = k # [Suc k..<Suc n]"
    using k(1) by (rule upt_conv_Cons)
  show ?case
    apply (subst free_linear.simps)
    apply (subst l)
    using lt assms(1) Suc.hyps(1) [OF k(2,3)]
    by (simp add: nxt split: sum.splits)
qed

lemma free_doubling_unfold:
  assumes "0 < initial_count a" "maximum_objects a = initial_count a * 2 ^ n" "k \<le> n"
  shows "free_doubling a (initial_count a * 2 ^ k) w
       = free_at a (map (\<lambda>j. initial_count a * 2 ^ j) [k..<n]) w"
  using assms(3)
proof (induction "n - k" arbitrary: k w)
  case 0
  then have "k = n" by simp
  with assms(2) show ?case
    by (subst free_doubling.simps) simp
next
  case (Suc x)
  then have k: "k < n" "x = n - Suc k" "Suc k \<le> n" by simp_all
  have lt: "initial_count a * 2 ^ k < maximum_objects a"
    using k(1) assms(1,2) by simp
  have nxt: "2 * (initial_count a * 2 ^ k) = initial_count a * 2 ^ Suc k"
    by simp
  have l: "[k..<n] = k # [Suc k..<n]"
    using k(1) by (rule upt_conv_Cons)
  show ?case
    apply (subst free_doubling.simps)
    apply (subst l)
    using lt assms(1) Suc.hyps(1) [OF k(2,3)]
    by (simp add: nxt split: sum.splits del: power_Suc)
qed

lemma heap_free_live:
  assumes ok: "heap_ok w" and b: "blocks w p = Some n"
  shows "\<exists>w1. heap_free p w = Inr w1 \<and> heap_ok w1 \<and> blocks w1 = (blocks w)(p := None)
           \<and> brk w1 = brk w \<and> freed w1 = freed w @ [p]
           \<and> (\<forall>x. x \<noteq> p \<and> blocks w x \<noteq> None
                 \<longrightarrow> handles w1 x = handles w x \<and> dirs w1 x = dirs w x)"
proof -
  from heap_ok_block [OF ok b] have p: "p \<noteq> NULL" by simp
  let ?w1 = "w\<lparr>handles := outside p n (handles w), dirs := outside p n (dirs w),
    entries := outside p n (entries w), blocks := (blocks w)(p := None),
    freed := freed w @ [p]\<rparr>"
  from p b have f: "heap_free p w = Inr ?w1"
    by (simp add: heap_free_def)
  have "heap_ok ?w1"
    by (rule heap_ok_remove [OF ok]) simp_all
  moreover have "handles ?w1 x = handles w x \<and> dirs ?w1 x = dirs w x"
    if "x \<noteq> p" "blocks w x \<noteq> None" for x
  proof -
    from that(2) obtain k where "blocks w x = Some k" by auto
    from in_block_base [OF this] have ib: "in_block w x x" .
    from outside_other_block [OF ok b ib that(1), of "handles w"]
      outside_other_block [OF ok b ib that(1), of "dirs w"]
    show ?thesis by simp
  qed
  ultimately show ?thesis
    using f by auto
qed

lemma free_at_closed:
  assumes "heap_ok w" "dirs w (pool a) = Some d" "pool a \<noteq> NULL" "blocks w (pool a) \<noteq> None"
    "\<And>s. s \<in> set ss \<Longrightarrow> s < length d \<and> blocks w (d ! s) \<noteq> None \<and> d ! s \<noteq> pool a"
    "distinct (map (\<lambda>s. d ! s) ss)"
  shows "\<exists>w'. free_at a ss w = Inr w' \<and> freed w' = freed w @ map (\<lambda>s. d ! s) ss
           \<and> heap_ok w' \<and> dirs w' (pool a) = Some d \<and> brk w' = brk w
           \<and> (\<forall>x. blocks w' x = (if x \<in> (\<lambda>s. d ! s) ` set ss then None else blocks w x))
           \<and> (\<forall>x. blocks w x \<noteq> None \<and> x \<notin> (\<lambda>s. d ! s) ` set ss
                 \<longrightarrow> handles w' x = handles w x)"
  using assms
proof (induction ss arbitrary: w)
  case Nil
  then show ?case by simp
next
  case (Cons s ss)
  from Cons.prems(5) [of s] obtain n where s: "s < length d" "blocks w (d ! s) = Some n"
    "d ! s \<noteq> pool a"
    by auto
  from heap_free_live [OF Cons.prems(1) s(2)] obtain w1 where w1:
    "heap_free (d ! s) w = Inr w1" "heap_ok w1" "blocks w1 = (blocks w)(d ! s := None)"
    "brk w1 = brk w" "freed w1 = freed w @ [d ! s]"
    "\<And>x. x \<noteq> d ! s \<Longrightarrow> blocks w x \<noteq> None
       \<Longrightarrow> handles w1 x = handles w x \<and> dirs w1 x = dirs w x"
    by blast
  from w1(6) [of "pool a"] s(3) Cons.prems(2,4) have dir1: "dirs w1 (pool a) = Some d"
    by simp
  have blk1: "blocks w1 (pool a) \<noteq> None"
    using w1(3) s(3) Cons.prems(4) by simp
  have rest: "t < length d \<and> blocks w1 (d ! t) \<noteq> None \<and> d ! t \<noteq> pool a" if "t \<in> set ss" for t
  proof -
    from Cons.prems(6) have "d ! s \<notin> (\<lambda>s. d ! s) ` set ss" by simp
    with that have "d ! t \<noteq> d ! s" by (metis imageI)
    with Cons.prems(5) [of t] that w1(3) show ?thesis by simp
  qed
  from Cons.prems(6) have dist: "distinct (map (\<lambda>s. d ! s) ss)" by simp
  from Cons.IH [OF w1(2) dir1 Cons.prems(3) blk1 rest dist] obtain w' where w':
    "free_at a ss w1 = Inr w'" "freed w' = freed w1 @ map (\<lambda>s. d ! s) ss"
    "heap_ok w'" "dirs w' (pool a) = Some d" "brk w' = brk w1"
    "\<And>x. blocks w' x = (if x \<in> (\<lambda>s. d ! s) ` set ss then None else blocks w1 x)"
    "\<And>x. blocks w1 x \<noteq> None \<Longrightarrow> x \<notin> (\<lambda>s. d ! s) ` set ss \<Longrightarrow> handles w' x = handles w1 x"
    by blast
  have "free_at a (s # ss) w = Inr w'"
    using read_pool_dir [OF Cons.prems(2,3) s(1)] w1(1) w'(1) by simp
  moreover have "freed w' = freed w @ map (\<lambda>s. d ! s) (s # ss)"
    using w'(2) w1(5) by simp
  moreover have "blocks w' x = (if x \<in> (\<lambda>s. d ! s) ` set (s # ss) then None else blocks w x)"
    for x
    using w'(6) [of x] w1(3) by auto
  moreover have "handles w' x = handles w x"
    if "blocks w x \<noteq> None" "x \<notin> (\<lambda>s. d ! s) ` set (s # ss)" for x
  proof -
    from that have x: "x \<noteq> d ! s" "x \<notin> (\<lambda>s. d ! s) ` set ss" by auto
    with that(1) w1(3) have "blocks w1 x \<noteq> None" by simp
    from w'(7) [OF this x(2)] w1(6) [OF x(1) that(1)] show ?thesis by simp
  qed
  ultimately show ?case
    using w'(3,4,5) w1(4) by auto
qed

lemma deinitialize_loops_unfold:
  assumes c: "use_chunks a" "0 < initial_count a"
    "maximum_objects a = capacity_at (use_linear a) (initial_count a) n"
  shows "(if use_linear a then free_linear a 0 w
          else (case read_pool a 0 w of
                  Inl f \<Rightarrow> Inl f
                | Inr p \<Rightarrow>
                    (case heap_free p w of
                       Inl f \<Rightarrow> Inl f
                     | Inr w2 \<Rightarrow> free_doubling a (initial_count a) w2)))
       = free_at a (map fst (fill_calls (use_linear a) (initial_count a) n)) w"
proof (cases "use_linear a")
  case True
  with c(3) have m: "maximum_objects a = initial_count a + n * initial_count a"
    by (simp add: capacity_at_def)
  from free_linear_unfold [OF c(2) m, of 0 w] True show ?thesis
    by (simp add: fill_calls_offsets)
next
  case False
  with c(3) have m: "maximum_objects a = initial_count a * 2 ^ n"
    by (simp add: capacity_at_def)
  have "free_doubling a (initial_count a) w2
      = free_at a (map (\<lambda>j. initial_count a * 2 ^ j) [0..<n]) w2" for w2
    using free_doubling_unfold [OF c(2) m, of 0 w2] by simp
  with False show ?thesis
    by (simp add: fill_calls_offsets split: sum.splits)
qed

lemma deinitialize_chunked:
  assumes inv: "pool_inv h a d w" and c: "chunk_inv a d w n"
  shows "\<exists>w'. op_ll_deinitialize_allocator h w = Inr w'
           \<and> freed w' = freed w
               @ map (\<lambda>s. d ! s) (map fst (fill_calls (use_linear a) (initial_count a) n))
               @ [pool a, h]
           \<and> (\<forall>x. blocks w' x =
                 (if x \<in> (\<lambda>s. d ! s) ` fst ` set (fill_calls (use_linear a) (initial_count a) n)
                     \<or> x = pool a \<or> x = h
                  then None else blocks w x))"
proof -
  note D = pool_invD [OF inv] and C = chunk_invD [OF c]
  let ?a = "a\<lparr>initialized := False\<rparr>"
  let ?w1 = "w\<lparr>handles := (handles w)(h \<mapsto> ?a)\<rparr>"
  let ?ss = "map fst (fill_calls (use_linear a) (initial_count a) n)"
  have ok1: "heap_ok ?w1"
    by (rule heap_ok_same [OF D(1)]) simp_all
  have st: "s < length d \<and> blocks ?w1 (d ! s) \<noteq> None \<and> d ! s \<noteq> pool ?a" if "s \<in> set ?ss" for s
  proof -
    from that obtain m where sm: "(s, m) \<in> set (fill_calls (use_linear a) (initial_count a) n)"
      by auto
    from chunk_start_block(1,4) [OF inv c sm] C(4) [OF sm] show ?thesis by simp
  qed
  have nh: "h \<notin> (\<lambda>s. d ! s) ` set ?ss"
  proof
    assume "h \<in> (\<lambda>s. d ! s) ` set ?ss"
    then obtain s m where sm: "(s, m) \<in> set (fill_calls (use_linear a) (initial_count a) n)"
      and "h = d ! s"
      by auto
    with chunk_start_block(3) [OF inv c sm] show False by simp
  qed
  have np: "pool a \<notin> (\<lambda>s. d ! s) ` set ?ss"
  proof
    assume "pool a \<in> (\<lambda>s. d ! s) ` set ?ss"
    then obtain s where "s \<in> set ?ss" "pool a = d ! s"
      by blast
    with st [of s] show False by simp
  qed
  have inj: "inj_on (\<lambda>s. d ! s) (set ?ss)"
  proof (rule inj_onI)
    fix s t
    assume s: "s \<in> set ?ss" and t: "t \<in> set ?ss" and eq: "d ! s = d ! t"
    from s obtain m where sm: "(s, m) \<in> set (fill_calls (use_linear a) (initial_count a) n)"
      by auto
    show "s = t"
    proof (rule ccontr)
      assume "s \<noteq> t"
      from D(12) [OF _ _ this chunk_start_block(2) [OF inv c sm]] st [OF s] st [OF t] eq
      show False by simp
    qed
  qed
  have dist: "distinct (map (\<lambda>s. d ! s) ?ss)"
    by (rule iffD2 [OF distinct_map]) (rule conjI [OF fill_calls_distinct [OF C(2)] inj])
  have "\<exists>w3. free_at ?a ?ss ?w1 = Inr w3 \<and> freed w3 = freed ?w1 @ map (\<lambda>s. d ! s) ?ss
      \<and> heap_ok w3 \<and> dirs w3 (pool ?a) = Some d \<and> brk w3 = brk ?w1
      \<and> (\<forall>x. blocks w3 x = (if x \<in> (\<lambda>s. d ! s) ` set ?ss then None else blocks ?w1 x))
      \<and> (\<forall>x. blocks ?w1 x \<noteq> None \<and> x \<notin> (\<lambda>s. d ! s) ` set ?ss
            \<longrightarrow> handles w3 x = handles ?w1 x)"
    by (rule free_at_closed [OF ok1 _ _ _ st dist]) (use D in simp_all)
  then obtain w3 where w3: "free_at ?a ?ss ?w1 = Inr w3"
    "freed w3 = freed w @ map (\<lambda>s. d ! s) ?ss" "heap_ok w3"
    "\<And>x. blocks w3 x = (if x \<in> (\<lambda>s. d ! s) ` set ?ss then None else blocks w x)"
    by auto
  from D(10) obtain k where "blocks w (pool a) = Some k" by auto
  with w3(4) [of "pool a"] np have "blocks w3 (pool a) = Some k" by simp
  from heap_free_live [OF w3(3) this] obtain w4 where w4:
    "heap_free (pool a) w3 = Inr w4" "heap_ok w4" "blocks w4 = (blocks w3)(pool a := None)"
    "freed w4 = freed w3 @ [pool a]"
    by blast
  from D(9) obtain k' where "blocks w h = Some k'" by auto
  with w3(4) [of h] nh w4(3) D(8) have "blocks w4 h = Some k'" by simp
  from heap_free_live [OF w4(2) this] obtain w5 where w5:
    "heap_free h w4 = Inr w5" "blocks w5 = (blocks w4)(h := None)" "freed w5 = freed w4 @ [h]"
    by blast
  have loops: "(if use_linear ?a then free_linear ?a 0 ?w1
          else (case read_pool ?a 0 ?w1 of
                  Inl f \<Rightarrow> Inl f
                | Inr p \<Rightarrow>
                    (case heap_free p ?w1 of
                       Inl f \<Rightarrow> Inl f
                     | Inr w2 \<Rightarrow> free_doubling ?a (initial_count ?a) w2))) = Inr w3"
    using deinitialize_loops_unfold [of ?a n ?w1] C(1,2,3) w3(1) by simp
  have "op_ll_deinitialize_allocator h w = Inr w5"
    unfolding op_ll_deinitialize_allocator_def Let_def
    using D(2,5,6) C(1) loops w4(1) w5(1) by simp
  moreover have "freed w5 = freed w @ map (\<lambda>s. d ! s) ?ss @ [pool a, h]"
    using w5(3) w4(4) w3(2) by simp
  moreover have "blocks w5 x = (if x \<in> (\<lambda>s. d ! s) ` fst ` set (fill_calls (use_linear a)
      (initial_count a) n) \<or> x = pool a \<or> x = h then None else blocks w x)" for x
    using w5(2) w4(3) w3(4) [of x] by (simp add: image_image)
  ultimately show ?thesis by blast
qed

text \<open>
  On a chunked handle that was reached by successful calls only, \<open>deinitialize\<close> frees
  the block of every call of \<open>fill_chunks\<close>, at the offset of the call, and then the
  directory and the struct; none of these blocks is live afterwards.
\<close>

lemma deinitialize_after_successful_calls:
  assumes run: "pool_run osz c mode w0 h w" and m: "mode_chunks mode" "0 < c"
    and a: "handles w h = Some a" "dirs w (pool a) = Some d"
  shows "\<exists>n w'. maximum_objects a = capacity_at (mode_linear mode) c n
           \<and> op_ll_deinitialize_allocator h w = Inr w'
           \<and> freed w' = freed w
               @ map (\<lambda>s. d ! s) (map fst (fill_calls (mode_linear mode) c n)) @ [pool a, h]
           \<and> (\<forall>(s, k) \<in> set (fill_calls (mode_linear mode) c n).
                 blocks w (d ! s) = Some (k * (k * (sizeof_ab_t + osz)))
                 \<and> blocks w' (d ! s) = None)"
proof -
  from pool_run_chunked [OF run m] obtain a' d' n where inv': "pool_inv h a' d' w"
    and c': "chunk_inv a' d' w n"
    and f: "object_size a' = osz" "initial_count a' = c" "use_linear a' = mode_linear mode"
    by (auto simp: chunked_def)
  from pool_invD(2,3) [OF inv'] a have eq: "a' = a" "d' = d" by simp_all
  note inv = inv' [unfolded eq] and ch = c' [unfolded eq] and f = f [unfolded eq]
  note C = chunk_invD [OF ch]
  from deinitialize_chunked [OF inv ch] obtain w' where w':
    "op_ll_deinitialize_allocator h w = Inr w'"
    "freed w' = freed w
       @ map (\<lambda>s. d ! s) (map fst (fill_calls (use_linear a) (initial_count a) n)) @ [pool a, h]"
    "\<And>x. blocks w' x =
       (if x \<in> (\<lambda>s. d ! s) ` fst ` set (fill_calls (use_linear a) (initial_count a) n)
           \<or> x = pool a \<or> x = h
        then None else blocks w x)"
    by blast
  have "blocks w (d ! s) = Some (k * (k * (sizeof_ab_t + osz))) \<and> blocks w' (d ! s) = None"
    if "(s, k) \<in> set (fill_calls (mode_linear mode) c n)" for s k
  proof -
    from that f have sk: "(s, k) \<in> set (fill_calls (use_linear a) (initial_count a) n)"
      by simp
    then have "d ! s \<in> (\<lambda>s. d ! s) ` fst ` set (fill_calls (use_linear a) (initial_count a) n)"
      by force
    with w'(3) [of "d ! s"] C(4) [OF sk] f(1) show ?thesis
      by (simp add: entry_size_def)
  qed
  with w'(1,2) C(3) f show ?thesis
    by (intro exI [of _ n] exI [of _ w']) auto
qed

end
